theory Spec2Isabelle
  imports Main "HOL-Library.Word" "HOL-Library.Sublist"
begin

section \<open>The event bus of \<^verbatim>\<open>events/events.go\<close>\<close>

subsection \<open>Data\<close>

text \<open>
  \<^verbatim>\<open>jsonmessage.JSONMessage\<close>, restricted to the four fields that \<^verbatim>\<open>Events.log\<close> fills in.
  \<^verbatim>\<open>Time\<close> is an \<^verbatim>\<open>int64\<close>: a 64-bit word, compared through \<open>sint\<close>.
\<close>

record JSONMessage =
  Status :: string
  ID :: string
  From :: string
  Time :: "64 word"

text \<open>
  A \<^verbatim>\<open>listener\<close> is a channel; its identity is the channel instance, modelled as the
  address the channel got from \<^verbatim>\<open>make\<close>. The channel store gives each allocated address
  its state; an address that was never allocated behaves as the nil channel.
\<close>

type_synonym listener = nat

datatype chan_state = Open | Closed

datatype panic =
  SendOnClosedChannel
  | CloseOfClosedChannel
  | CloseOfNilChannel
  | SliceBoundsOutOfRange

datatype error = Error string

text \<open>
  \<^verbatim>\<open>Events\<close>: the slice \<^verbatim>\<open>events\<close> with its capacity (the mutex is not modelled, every
  operation below runs as one step), and the slice of subscribers.
\<close>

record Events =
  events :: "JSONMessage list"
  events_cap :: nat
  subscribers :: "listener list"

record world =
  bus :: Events
  chans :: "chan_state list"

definition eventsLimit :: nat where
  "eventsLimit = 64"

definition New :: Events where
  "New = \<lparr>events = [], events_cap = eventsLimit, subscribers = []\<rparr>"

definition New_world :: world where
  "New_world = \<lparr>bus = New, chans = []\<rparr>"

subsection \<open>Publishing: \<^verbatim>\<open>Events.log\<close>\<close>

text \<open>
  Go's \<^verbatim>\<open>copy(dst, src)\<close> moves \<open>min (len dst) (len src)\<close> elements to the front of
  \<open>dst\<close> and leaves the rest of \<open>dst\<close> as it was (overlap is handled as by memmove).
\<close>

definition go_copy :: "'a list \<Rightarrow> 'a list \<Rightarrow> 'a list" where
  "go_copy dst src =
     (let n = min (length dst) (length src) in take n src @ drop n dst)"

text \<open>
  Lines 174 to 180. With \<open>len = cap\<close> the oldest record is discarded by shifting the
  slice left and overwriting the last cell; \<^verbatim>\<open>e.events[1:]\<close> panics on an empty slice.
  Otherwise \<^verbatim>\<open>append\<close> writes behind the last element, below the capacity, so the
  capacity stays.
\<close>

definition store_event :: "JSONMessage \<Rightarrow> Events \<Rightarrow> panic + Events" where
  "store_event jm e =
     (if length (events e) = events_cap e then
        (if length (events e) < 1 then Inl SliceBoundsOutOfRange
         else
           let shifted = go_copy (events e) (drop 1 (events e))
           in Inr (e\<lparr>events := shifted[length shifted - 1 := jm]\<rparr>))
      else Inr (e\<lparr>events := events e @ [jm]\<rparr>))"

text \<open>
  Lines 181 to 188, one \<^verbatim>\<open>select\<close> per subscriber. What the receiving side does is
  the environment's: \<open>ready i\<close> is the time in milliseconds after which a receiver
  waits on the channel offered in round \<open>i\<close> of the loop (\<open>None\<close>: never), and
  \<open>tie_send i\<close> is the case Go picks when the receiver and the timer are ready at the
  same instant. A send on a closed channel panics; a send on the nil channel never
  becomes ready.
\<close>

record env =
  ready :: "nat \<Rightarrow> nat option"
  tie_send :: "nat \<Rightarrow> bool"

definition grace :: nat where
  "grace = 100"

datatype offer = Delivered | TimedOut

definition select_send ::
  "chan_state list \<Rightarrow> listener \<Rightarrow> nat option \<Rightarrow> bool \<Rightarrow> panic + (offer \<times> nat)" where
  "select_send cs s r tie =
     (if s < length cs \<and> cs ! s = Closed then Inl SendOnClosedChannel
      else if s < length cs then
        (case r of
           None \<Rightarrow> Inr (TimedOut, grace)
         | Some d \<Rightarrow>
             if d < grace then Inr (Delivered, d)
             else if d = grace \<and> tie then Inr (Delivered, grace)
             else Inr (TimedOut, grace))
      else Inr (TimedOut, grace))"

text \<open>
  The loop returns, for each subscriber in turn, what became of the offer, and the
  time the whole loop took.
\<close>

fun fanout ::
  "chan_state list \<Rightarrow> env \<Rightarrow> nat \<Rightarrow> listener list \<Rightarrow> panic + ((listener \<times> offer) list \<times> nat)" where
  "fanout cs en i [] = Inr ([], 0)"
| "fanout cs en i (s # ss) =
     (case select_send cs s (ready en i) (tie_send en i) of
        Inl p \<Rightarrow> Inl p
      | Inr (off, t) \<Rightarrow>
          (case fanout cs en (Suc i) ss of
             Inl p \<Rightarrow> Inl p
           | Inr (offs, t') \<Rightarrow> Inr ((s, off) # offs, t + t')))"

text \<open>
  The body of \<^verbatim>\<open>Events.log\<close>, lines 172 to 188, which runs with the lock held (the
  lock itself is in \<open>log_locked\<close> below); \<open>now\<close> is what \<^verbatim>\<open>time.Now().UTC().Unix()\<close>
  returns. The result is the new state, the outcome of every offer of the record,
  and the time the \<^verbatim>\<open>select\<close>s have waited.
\<close>

definition log ::
  "env \<Rightarrow> 64 word \<Rightarrow> string \<Rightarrow> string \<Rightarrow> string \<Rightarrow> world
     \<Rightarrow> panic + (world \<times> (listener \<times> offer) list \<times> nat)" where
  "log en now action ident from w =
     (let jm = \<lparr>Status = action, ID = ident, From = from, Time = now\<rparr> in
      case store_event jm (bus w) of
        Inl p \<Rightarrow> Inl p
      | Inr e' \<Rightarrow>
          (case fanout (chans w) en 0 (subscribers e') of
             Inl p \<Rightarrow> Inl p
           | Inr (offs, t) \<Rightarrow> Inr (w\<lparr>bus := e'\<rparr>, offs, t)))"

text \<open>A publish: the three arguments, the clock reading and the receivers' behaviour.\<close>

record publish =
  p_action :: string
  p_id :: string
  p_from :: string
  p_now :: "64 word"
  p_env :: env

definition record_of :: "publish \<Rightarrow> JSONMessage" where
  "record_of p = \<lparr>Status = p_action p, ID = p_id p, From = p_from p, Time = p_now p\<rparr>"

fun log_all :: "world \<Rightarrow> publish list \<Rightarrow> panic + world" where
  "log_all w [] = Inr w"
| "log_all w (p # ps) =
     (case log (p_env p) (p_now p) (p_action p) (p_id p) (p_from p) w of
        Inl e \<Rightarrow> Inl e
      | Inr (w', offs, t) \<Rightarrow> log_all w' ps)"

subsection \<open>The subscriber registry\<close>

text \<open>\<^verbatim>\<open>make(chan *jsonmessage.JSONMessage)\<close>: a new open channel at a fresh address.\<close>

definition make_chan :: "chan_state list \<Rightarrow> listener \<times> chan_state list" where
  "make_chan cs = (length cs, cs @ [Open])"

text \<open>\<^verbatim>\<open>close(l)\<close> panics on a channel that is closed already and on the nil channel.\<close>

definition close_chan :: "listener \<Rightarrow> chan_state list \<Rightarrow> panic + chan_state list" where
  "close_chan l cs =
     (if l < length cs then
        (case cs ! l of
           Open \<Rightarrow> Inr (cs[l := Closed])
         | Closed \<Rightarrow> Inl CloseOfClosedChannel)
      else Inl CloseOfNilChannel)"

definition subscribe :: "listener \<Rightarrow> Events \<Rightarrow> Events" where
  "subscribe l e = e\<lparr>subscribers := subscribers e @ [l]\<rparr>"

definition subscribersCount :: "Events \<Rightarrow> nat" where
  "subscribersCount e = length (subscribers e)"

text \<open>
  \<^verbatim>\<open>Events.unsubscribe\<close>: the loop looks for the first index whose subscriber is \<open>l\<close>;
  there it closes \<open>l\<close>, cuts that index out of the slice and returns \<open>true\<close>. When
  the loop runs out it returns \<open>false\<close>.
\<close>

fun unsubscribe_loop :: "listener \<Rightarrow> nat \<Rightarrow> listener list \<Rightarrow> nat option" where
  "unsubscribe_loop l i [] = None"
| "unsubscribe_loop l i (subscriber # rest) =
     (if subscriber = l then Some i else unsubscribe_loop l (Suc i) rest)"

definition unsubscribe :: "listener \<Rightarrow> world \<Rightarrow> panic + (bool \<times> world)" where
  "unsubscribe l w =
     (case unsubscribe_loop l 0 (subscribers (bus w)) of
        Some i \<Rightarrow>
          (case close_chan l (chans w) of
             Inl p \<Rightarrow> Inl p
           | Inr cs \<Rightarrow>
               Inr (True,
                 w\<lparr>bus := (bus w)\<lparr>subscribers :=
                        take i (subscribers (bus w)) @ drop (Suc i) (subscribers (bus w))\<rparr>,
                   chans := cs\<rparr>))
      | None \<Rightarrow> Inr (False, w))"

subsection \<open>The filter of \<^verbatim>\<open>writeEvent\<close>\<close>

text \<open>\<^verbatim>\<open>strings.Split(s, sep)\<close> for a separator of one character.\<close>

fun Split :: "string \<Rightarrow> char \<Rightarrow> string list" where
  "Split [] sep = [[]]"
| "Split (c # cs) sep =
     (if c = sep then [] # Split cs sep
      else (case Split cs sep of
              [] \<Rightarrow> [[c]]
            | piece # pieces \<Rightarrow> (c # piece) # pieces))"

text \<open>The closure \<^verbatim>\<open>isFiltered\<close>, lines 111 to 127, with its loop over the filter values.\<close>

fun isFiltered_loop :: "string \<Rightarrow> string list \<Rightarrow> bool" where
  "isFiltered_loop field [] = True"
| "isFiltered_loop field (v # vs) =
     (if v = field then False
      else if CHR '':'' \<in> set field \<and> Split field CHR '':'' ! 0 = v then False
      else isFiltered_loop field vs)"

definition isFiltered :: "string \<Rightarrow> string list \<Rightarrow> bool" where
  "isFiltered field filter_vals =
     (if length filter_vals = 0 then False else isFiltered_loop field filter_vals)"

text \<open>
  \<^verbatim>\<open>filters.Args\<close> is a \<^verbatim>\<open>map[string][]string\<close>; reading a key that is absent gives
  the nil slice.
\<close>

type_synonym Args = "string \<rightharpoonup> string list"

definition args_get :: "Args \<Rightarrow> string \<Rightarrow> string list" where
  "args_get fs k = (case fs k of None \<Rightarrow> [] | Some vs \<Rightarrow> vs)"

text \<open>
  What the code calls but does not define: the filter parser, the
  \<^verbatim>\<open>container_inspect\<close> job with the decoding of its output, \<^verbatim>\<open>json.Marshal\<close>, and
  the writer behind \<^verbatim>\<open>job.Stdout\<close>, which returns the sink after the call and the
  error of the call.
\<close>

record 'o ext =
  FromParam :: "string \<Rightarrow> error + Args"
  container_inspect :: "string \<Rightarrow> error + string"
  decode_ID :: "string \<Rightarrow> string"
  Marshal :: "JSONMessage \<Rightarrow> error + string"
  Write :: "'o \<Rightarrow> string \<Rightarrow> 'o \<times> error option"

text \<open>\<^verbatim>\<open>GetContainerId\<close>: the empty string when the job fails, else the decoded field.\<close>

definition GetContainerId :: "'o ext \<Rightarrow> string \<Rightarrow> string" where
  "GetContainerId x name =
     (case container_inspect x name of
        Inl err \<Rightarrow> []
      | Inr buf \<Rightarrow> decode_ID x buf)"

text \<open>
  Lines 130 to 132 overwrite every container value, in the slice the map holds, with
  what \<^verbatim>\<open>GetContainerId\<close> returns for it: the caller's filters change too.
\<close>

definition resolve_containers :: "'o ext \<Rightarrow> Args \<Rightarrow> Args" where
  "resolve_containers x fs =
     (case fs ''container'' of
        None \<Rightarrow> fs
      | Some cns \<Rightarrow> fs(''container'' \<mapsto> map (GetContainerId x) cns))"

text \<open>
  \<^verbatim>\<open>writeEvent\<close> returns the filters as it leaves them, the sink, and its error.
\<close>

definition writeEvent ::
  "'o ext \<Rightarrow> 'o \<Rightarrow> JSONMessage \<Rightarrow> Args \<Rightarrow> Args \<times> 'o \<times> error option" where
  "writeEvent x out event eventFilters =
     (let fs = resolve_containers x eventFilters in
      if isFiltered (Status event) (args_get fs ''event'')
         \<or> isFiltered (From event) (args_get fs ''image'')
         \<or> isFiltered (ID event) (args_get fs ''container'')
      then (fs, out, None)
      else
        (case Marshal x event of
           Inr b \<Rightarrow> (case Write x out b of (out', err) \<Rightarrow> (fs, out', err))
         | Inl err \<Rightarrow> (fs, out, None)))"

subsection \<open>Replay: \<^verbatim>\<open>Events.writeCurrent\<close>\<close>

definition in_window :: "64 word \<Rightarrow> 64 word \<Rightarrow> JSONMessage \<Rightarrow> bool" where
  "in_window since until event \<longleftrightarrow>
     sint since \<le> sint (Time event) \<and> (sint (Time event) \<le> sint until \<or> until = 0)"

fun writeCurrent_loop ::
  "'o ext \<Rightarrow> 64 word \<Rightarrow> 64 word \<Rightarrow> 'o \<Rightarrow> Args \<Rightarrow> JSONMessage list
     \<Rightarrow> Args \<times> 'o \<times> error option" where
  "writeCurrent_loop x since until out fs [] = (fs, out, None)"
| "writeCurrent_loop x since until out fs (event # rest) =
     (if in_window since until event then
        (case writeEvent x out event fs of
           (fs', out', Some err) \<Rightarrow> (fs', out', Some err)
         | (fs', out', None) \<Rightarrow> writeCurrent_loop x since until out' fs' rest)
      else writeCurrent_loop x since until out fs rest)"

text \<open>The bus is the receiver; it is returned as the call leaves it.\<close>

definition writeCurrent ::
  "'o ext \<Rightarrow> 64 word \<Rightarrow> 64 word \<Rightarrow> 'o \<Rightarrow> Args \<Rightarrow> Events
     \<Rightarrow> Events \<times> Args \<times> 'o \<times> error option" where
  "writeCurrent x since until out fs e =
     (e, writeCurrent_loop x since until out fs (events e))"

subsection \<open>The query session: \<^verbatim>\<open>Events.Get\<close>\<close>

text \<open>
  The parts of \<^verbatim>\<open>engine.Job\<close> the handlers read: the name, the arguments, the values
  of \<^verbatim>\<open>GetenvInt64("since")\<close>, \<^verbatim>\<open>GetenvInt64("until")\<close> and \<^verbatim>\<open>Getenv("filters")\<close>, and
  the output sink.
\<close>

record 'o Job =
  Name :: string
  Args :: "string list"
  env_since :: "64 word"
  env_until :: "64 word"
  env_filters :: string
  Stdout :: 'o

text \<open>
  One round of the \<^verbatim>\<open>select\<close> of lines 80 to 90 takes what the environment provides:
  a record received on the listener, the listener found closed, or the timer (which
  is stopped when \<open>until\<close> is 0). When the environment provides nothing more, the
  session stays blocked in the \<^verbatim>\<open>select\<close>. The other goroutines act on the session
  through these receives only: the bus is not changed under the session's feet.
\<close>

datatype recv = Recv JSONMessage | ChanClosed | TimerFired

datatype outcome = Returned "error option" | Blocked

fun Get_loop :: "'o ext \<Rightarrow> 'o \<Rightarrow> Args \<Rightarrow> recv list \<Rightarrow> outcome \<times> 'o" where
  "Get_loop x out fs [] = (Blocked, out)"
| "Get_loop x out fs (ChanClosed # rest) = (Returned None, out)"
| "Get_loop x out fs (TimerFired # rest) = (Returned None, out)"
| "Get_loop x out fs (Recv event # rest) =
     (case writeEvent x out event fs of
        (fs', out', Some err) \<Rightarrow> (Returned (Some err), out')
      | (fs', out', None) \<Rightarrow> Get_loop x out' fs' rest)"

text \<open>Lines 66 and 67: a fresh channel, registered at once.\<close>

definition new_listener :: "world \<Rightarrow> listener \<times> world" where
  "new_listener w =
     (case make_chan (chans w) of
        (l, cs) \<Rightarrow> (l, w\<lparr>bus := subscribe l (bus w), chans := cs\<rparr>))"

text \<open>
  Lines 70 to 91, between the registration and the deferred call: the empty write,
  whose result is dropped, the replay when \<open>since\<close> is not 0, and the loop.
\<close>

definition Get_session ::
  "'o ext \<Rightarrow> recv list \<Rightarrow> 'o Job \<Rightarrow> Args \<Rightarrow> world \<Rightarrow> outcome \<times> 'o \<times> world" where
  "Get_session x trace job eventFilters w =
     (let out1 = fst (Write x (Stdout job) []) in
      if env_since job \<noteq> 0 then
        (case writeCurrent x (env_since job) (env_until job) out1 eventFilters (bus w) of
           (e', fs', out', Some err) \<Rightarrow> (Returned (Some err), out', w\<lparr>bus := e'\<rparr>)
         | (e', fs', out', None) \<Rightarrow>
             (case Get_loop x out' fs' trace of
                (res, out'') \<Rightarrow> (res, out'', w\<lparr>bus := e'\<rparr>)))
      else
        (case Get_loop x out1 eventFilters trace of
           (res, out'') \<Rightarrow> (res, out'', w)))"

text \<open>
  What a session replays (lines 73 to 77 with the test of line 152): the records of
  the window when \<open>since\<close> is not 0, none otherwise.
\<close>

definition replayed :: "'o Job \<Rightarrow> Events \<Rightarrow> JSONMessage list" where
  "replayed job e =
     (if env_since job \<noteq> 0
      then filter (\<lambda>event. sint (env_since job) \<le> sint (Time event)
                     \<and> (sint (Time event) \<le> sint (env_until job) \<or> env_until job = 0)) (events e)
      else [])"

text \<open>
  The timer of line 53, \<^verbatim>\<open>time.NewTimer(time.Unix(until, 0).Sub(time.Now()))\<close>: it runs
  towards the instant \<open>until\<close> (and fires at once when that is past) until
  \<^verbatim>\<open>timeout.Stop()\<close> stops it. Its firing reaches the session as \<open>TimerFired\<close>.
\<close>

datatype timer = Running "64 word" | Stopped

text \<open>
  \<^verbatim>\<open>Events.Get\<close> returns its outcome, the sink, the state and the timer as they are
  when it returns. The timer is made first, before the filters are parsed; a parse
  error returns before the listener exists. The timer is stopped, after the parse,
  when \<open>until\<close> is 0. After the registration every return runs the deferred
  \<^verbatim>\<open>e.unsubscribe(listener)\<close>, whose result is dropped and whose panic is the call's.
\<close>

definition Get ::
  "'o ext \<Rightarrow> recv list \<Rightarrow> 'o Job \<Rightarrow> world \<Rightarrow> panic + (outcome \<times> 'o \<times> world \<times> timer)" where
  "Get x trace job w =
     (let timeout = Running (env_until job) in
      case FromParam x (env_filters job) of
        Inl err \<Rightarrow> Inr (Returned (Some err), Stdout job, w, timeout)
      | Inr eventFilters \<Rightarrow>
          (let timeout' = (if env_until job = 0 then Stopped else timeout) in
           case new_listener w of
             (listener, w1) \<Rightarrow>
               (case Get_session x trace job eventFilters w1 of
                  (Blocked, out, w2) \<Rightarrow> Inr (Blocked, out, w2, timeout')
                | (Returned r, out, w2) \<Rightarrow>
                    (case unsubscribe listener w2 of
                       Inl p \<Rightarrow> Inl p
                     | Inr (found, w3) \<Rightarrow> Inr (Returned r, out, w3, timeout')))))"

subsection \<open>The job \<^verbatim>\<open>Events.Log\<close>\<close>

text \<open>
  \<^verbatim>\<open>Events.Log\<close> returns its error, the call it has handed to a new goroutine, if any,
  and the state as it is when the handler returns.
\<close>

definition Log ::
  "'o Job \<Rightarrow> world \<Rightarrow> error option \<times> (string \<times> string \<times> string) option \<times> world" where
  "Log job w =
     (if length (Args job) \<noteq> 3 then
        (Some (Error (''usage: '' @ Name job @ '' ACTION ID FROM'')), None, w)
      else (None, Some (Args job ! 0, Args job ! 1, Args job ! 2), w))"

text \<open>The goroutine, when it runs: the call of \<^verbatim>\<open>e.log\<close> on the three arguments.\<close>

definition run_spawned ::
  "env \<Rightarrow> 64 word \<Rightarrow> (string \<times> string \<times> string) \<Rightarrow> world
     \<Rightarrow> panic + (world \<times> (listener \<times> offer) list \<times> nat)" where
  "run_spawned en now call w = (case call of (action, ident, from) \<Rightarrow> log en now action ident from w)"

subsection \<open>States the program reaches\<close>

text \<open>
  The registry holds every channel once, and every channel it holds is allocated and
  open.
\<close>

definition registry_ok :: "world \<Rightarrow> bool" where
  "registry_ok w \<longleftrightarrow>
     distinct (subscribers (bus w)) \<and>
     list_all (\<lambda>l. l < length (chans w) \<and> chans w ! l = Open) (subscribers (bus w))"

text \<open>
  The states reached from a new bus by the calls the file makes: \<^verbatim>\<open>log\<close>, the
  registration of \<^verbatim>\<open>Get\<close>, and \<^verbatim>\<open>unsubscribe\<close>.
\<close>

inductive reachable :: "world \<Rightarrow> bool" where
  reach_New: "reachable New_world"
| reach_log: "reachable w \<Longrightarrow> log en now action ident from w = Inr (w', offs, t) \<Longrightarrow> reachable w'"
| reach_listen: "reachable w \<Longrightarrow> new_listener w = (l, w') \<Longrightarrow> reachable w'"
| reach_unsubscribe: "reachable w \<Longrightarrow> unsubscribe l w = Inr (found, w') \<Longrightarrow> reachable w'"

subsection \<open>The lock and the clock\<close>

text \<open>
  \<^verbatim>\<open>e.mu\<close> is a \<^verbatim>\<open>sync.RWMutex\<close>. Instants and durations are in milliseconds. The
  calls on the bus are served in the order in which they ask for the lock, and of
  the mutex it is then enough to know the instant at which the last writer so far
  unlocks and the instant at which the last reader so far does: \<^verbatim>\<open>Lock\<close>, called at
  some instant, returns when both have passed, \<^verbatim>\<open>RLock\<close> when the writer's has.
\<close>

record RWMutex =
  w_unlocked :: nat
  r_unlocked :: nat

definition Lock :: "nat \<Rightarrow> RWMutex \<Rightarrow> nat" where
  "Lock called mu = max called (max (w_unlocked mu) (r_unlocked mu))"

definition RLock :: "nat \<Rightarrow> RWMutex \<Rightarrow> nat" where
  "RLock called mu = max called (w_unlocked mu)"

text \<open>
  \<^verbatim>\<open>Events.log\<close> with its lock (lines 171 and 189), called at the instant \<open>called\<close>: the
  body runs from the instant \<^verbatim>\<open>Lock\<close> returns and takes the time its \<^verbatim>\<open>select\<close>s wait;
  at the end of it the mutex is unlocked and the call returns. The result holds that
  instant.
\<close>

definition log_locked ::
  "env \<Rightarrow> nat \<Rightarrow> 64 word \<Rightarrow> string \<Rightarrow> string \<Rightarrow> string \<Rightarrow> world \<times> RWMutex
     \<Rightarrow> panic + ((world \<times> RWMutex) \<times> (listener \<times> offer) list \<times> nat)" where
  "log_locked en called now action ident origin wm =
     (case wm of (w, mu) \<Rightarrow>
        let locked = Lock called mu in
        case log en now action ident origin w of
          Inl p \<Rightarrow> Inl p
        | Inr (w', offs, t) \<Rightarrow>
            Inr ((w', mu\<lparr>w_unlocked := locked + t\<rparr>), offs, locked + t))"

text \<open>
  The time \<^verbatim>\<open>writeEvent\<close> spends in \<^verbatim>\<open>job.Stdout.Write\<close>, where \<open>ms sink b\<close> is what the
  writer takes for the chunk \<open>b\<close> (as long as its client makes it wait), and the sum
  of these over the loop of \<^verbatim>\<open>writeCurrent\<close>. No other time is counted.
\<close>

definition writeEvent_ms ::
  "'o ext \<Rightarrow> ('o \<Rightarrow> string \<Rightarrow> nat) \<Rightarrow> 'o \<Rightarrow> JSONMessage \<Rightarrow> Args \<Rightarrow> nat" where
  "writeEvent_ms x ms out event eventFilters =
     (let fs = resolve_containers x eventFilters in
      if isFiltered (Status event) (args_get fs ''event'')
         \<or> isFiltered (From event) (args_get fs ''image'')
         \<or> isFiltered (ID event) (args_get fs ''container'')
      then 0
      else (case Marshal x event of Inr b \<Rightarrow> ms out b | Inl err \<Rightarrow> 0))"

fun writeCurrent_ms ::
  "'o ext \<Rightarrow> ('o \<Rightarrow> string \<Rightarrow> nat) \<Rightarrow> 64 word \<Rightarrow> 64 word \<Rightarrow> 'o \<Rightarrow> Args \<Rightarrow> JSONMessage list
     \<Rightarrow> nat" where
  "writeCurrent_ms x ms since until out fs [] = 0"
| "writeCurrent_ms x ms since until out fs (event # rest) =
     (if in_window since until event then
        (case writeEvent x out event fs of
           (fs', out', Some err) \<Rightarrow> writeEvent_ms x ms out event fs
         | (fs', out', None) \<Rightarrow>
             writeEvent_ms x ms out event fs + writeCurrent_ms x ms since until out' fs' rest)
      else writeCurrent_ms x ms since until out fs rest)"

text \<open>
  \<^verbatim>\<open>Events.writeCurrent\<close> with its read lock (lines 150, 154 and 159): it is held from
  the instant \<^verbatim>\<open>RLock\<close> returns until the loop has ended, all its writes included.
\<close>

definition writeCurrent_locked ::
  "'o ext \<Rightarrow> ('o \<Rightarrow> string \<Rightarrow> nat) \<Rightarrow> nat \<Rightarrow> 64 word \<Rightarrow> 64 word \<Rightarrow> 'o \<Rightarrow> Args
     \<Rightarrow> Events \<times> RWMutex \<Rightarrow> (Events \<times> Args \<times> 'o \<times> error option) \<times> RWMutex \<times> nat" where
  "writeCurrent_locked x ms called since until out fs em =
     (case em of (e, mu) \<Rightarrow>
        let locked = RLock called mu;
            released = locked + writeCurrent_ms x ms since until out fs (events e)
        in (writeCurrent x since until out fs e,
            mu\<lparr>r_unlocked := max (r_unlocked mu) released\<rparr>, released))"

subsection \<open>Emitting a sequence of records\<close>

text \<open>
  \<^verbatim>\<open>writeEvent\<close> on each record of a list in turn, up to the first error: what a caller
  does that hands the records of a list to \<^verbatim>\<open>writeEvent\<close> one after the other.
\<close>

fun writeEvents ::
  "'o ext \<Rightarrow> 'o \<Rightarrow> Args \<Rightarrow> JSONMessage list \<Rightarrow> Args \<times> 'o \<times> error option" where
  "writeEvents x out fs [] = (fs, out, None)"
| "writeEvents x out fs (event # rest) =
     (case writeEvent x out event fs of
        (fs', out', Some err) \<Rightarrow> (fs', out', Some err)
      | (fs', out', None) \<Rightarrow> writeEvents x out' fs' rest)"

subsection \<open>The matching rule\<close>

text \<open>
  The rule the closure \<^verbatim>\<open>isFiltered\<close> is compared with: a field matches a filter value
  when it equals the value or starts with the value immediately followed by \<^verbatim>\<open>:\<close>; a
  dimension passes when it has no values or one of them matches.
\<close>

definition value_matches :: "string \<Rightarrow> string \<Rightarrow> bool" where
  "value_matches field v \<longleftrightarrow> v = field \<or> prefix (v @ '':'') field"

definition dimension_passes :: "string \<Rightarrow> string list \<Rightarrow> bool" where
  "dimension_passes field vals \<longleftrightarrow> vals = [] \<or> (\<exists>v\<in>set vals. value_matches field v)"

subsection \<open>Sample inputs\<close>

text \<open>Receivers that never take a record.\<close>

definition quiet :: env where
  "quiet = \<lparr>ready = (\<lambda>i. None), tie_send = (\<lambda>i. False)\<rparr>"

definition sample_publish :: "nat \<Rightarrow> publish" where
  "sample_publish i =
     \<lparr>p_action = ''start'', p_id = ''c1'', p_from = ''img:latest'', p_now = of_nat i,
      p_env = quiet\<rparr>"

text \<open>
  A sink that keeps the chunks written to it and never fails, an encoder that always
  succeeds, a parser that accepts the empty parameter only, and a lookup that knows
  one container, by its name and by its identifier.
\<close>

definition lines_ext :: "string list ext" where
  "lines_ext =
     \<lparr>FromParam = (\<lambda>s. if s = [] then Inr Map.empty else Inl (Error ''bad filter'')),
      container_inspect =
        (\<lambda>name. if name = ''web'' \<or> name = ''4f2a'' then Inr ''4f2a''
           else Inl (Error ''no such container'')),
      decode_ID = (\<lambda>buf. buf),
      Marshal = (\<lambda>event. Inr (Status event @ '' '' @ ID event @ '' '' @ From event)),
      Write = (\<lambda>out b. (out @ [b], None))\<rparr>"

definition sample_record :: "string \<Rightarrow> 64 word \<Rightarrow> JSONMessage" where
  "sample_record st t = \<lparr>Status = st, ID = ''c1'', From = ''img:latest'', Time = t\<rparr>"

definition sample_bus :: Events where
  "sample_bus =
     \<lparr>events = [sample_record ''create'' 10, sample_record ''start'' 20, sample_record ''die'' 30],
      events_cap = eventsLimit, subscribers = []\<rparr>"

text \<open>
  A bus with two listeners left: three sessions have registered, the second has
  gone.
\<close>

definition sample_world :: world where
  "sample_world =
     \<lparr>bus = \<lparr>events = [], events_cap = eventsLimit, subscribers = [0, 2]\<rparr>,
      chans = [Open, Closed, Open]\<rparr>"

text \<open>Receivers of which the first takes the record after 30 ms and the others never do.\<close>

definition sample_env :: env where
  "sample_env = \<lparr>ready = (\<lambda>i. if i = 0 then Some 30 else None), tie_send = (\<lambda>i. False)\<rparr>"

text \<open>
  A sink that fails on every chunk that is not empty, an encoder that fails on the
  records of one status, and a query without arguments.
\<close>

definition broken_ext :: "string list ext" where
  "broken_ext =
     lines_ext\<lparr>Write := (\<lambda>out b. if b = [] then (out, None) else (out, Some (Error ''broken pipe'')))\<rparr>"

definition picky_ext :: "string list ext" where
  "picky_ext =
     lines_ext\<lparr>Marshal := (\<lambda>event. if Status event = ''odd'' then Inl (Error ''unsupported value'')
                                else Marshal lines_ext event)\<rparr>"

definition sample_job :: "string list Job" where
  "sample_job =
     \<lparr>Name = ''events'', Args = [], env_since = 0, env_until = 0, env_filters = [], Stdout = []\<rparr>"

text \<open>
  A sink with room for two chunks, and the bus of the two listeners with three
  records stored.
\<close>

definition full_ext :: "string list ext" where
  "full_ext =
     lines_ext\<lparr>Write := (\<lambda>out b. if length out < 2 then (out @ [b], None)
                              else (out, Some (Error ''no space left'')))\<rparr>"

definition replay_world :: world where
  "replay_world = sample_world\<lparr>bus := (bus sample_world)\<lparr>events := events sample_bus\<rparr>\<rparr>"

text \<open>A client that makes the writer wait 3000 ms for every chunk.\<close>

definition slow_client :: "string list \<Rightarrow> string \<Rightarrow> nat" where
  "slow_client sink b = 3000"

text \<open>Receivers that are ready at once.\<close>

definition eager :: env where
  "eager = \<lparr>ready = (\<lambda>i. Some 0), tie_send = (\<lambda>i. False)\<rparr>"

section \<open>Properties\<close>

subsection \<open>The history buffer\<close>

lemma go_copy_shift: "xs \<noteq> [] \<Longrightarrow> go_copy xs (drop (Suc 0) xs) = drop (Suc 0) xs @ [last xs]"
  by (cases xs rule: rev_cases) (simp_all add: go_copy_def min_def)

lemma store_event_events:
  assumes "events_cap e = c" "0 < c" "length (events e) \<le> c"
  shows "store_event jm e = Inr (e\<lparr>events := drop (Suc (length (events e)) - c) (events e @ [jm])\<rparr>)"
proof (cases "length (events e) = c")
  case True
  with assms have ne: "events e \<noteq> []" by auto
  have "(drop (Suc 0) (events e) @ [last (events e)])[length (events e) - Suc 0 := jm] = drop (Suc 0) (events e) @ [jm]"
    using ne by (simp add: list_update_append)
  then show ?thesis using True assms ne
    by (simp add: store_event_def go_copy_shift Let_def)
next
  case False
  with assms show ?thesis by (simp add: store_event_def)
qed

lemma log_no_subscribers:
  assumes "events_cap (bus w) = c" "0 < c" "length (events (bus w)) \<le> c" "subscribers (bus w) = []"
  shows "log en now a i f w =
     Inr (w\<lparr>bus := (bus w)\<lparr>events := drop (Suc (length (events (bus w))) - c)
        (events (bus w) @ [\<lparr>Status = a, ID = i, From = f, Time = now\<rparr>])\<rparr>\<rparr>, [], 0)"
  using assms by (simp add: log_def store_event_events [OF assms(1-3)])

lemma log_all_no_subscribers:
  assumes "events_cap (bus w) = c" "0 < c" "length (events (bus w)) \<le> c" "subscribers (bus w) = []"
  shows "log_all w ps =
     Inr (w\<lparr>bus := (bus w)\<lparr>events := drop (length (events (bus w)) + length ps - c)
        (events (bus w) @ map record_of ps)\<rparr>\<rparr>)"
  using assms
proof (induction ps arbitrary: w)
  case Nil
  then show ?case by simp
next
  case (Cons p ps)
  let ?evs = "events (bus w)"
  let ?r = "record_of p"
  let ?w1 = "w\<lparr>bus := (bus w)\<lparr>events := drop (Suc (length ?evs) - c) (?evs @ [?r])\<rparr>\<rparr>"
  have l: "log (p_env p) (p_now p) (p_action p) (p_id p) (p_from p) w = Inr (?w1, [], 0)"
    using log_no_subscribers [OF Cons.prems] by (simp add: record_of_def)
  have len1: "length (events (bus ?w1)) \<le> c" using Cons.prems by simp
  have ih: "log_all ?w1 ps = Inr (?w1\<lparr>bus := (bus ?w1)\<lparr>events := drop (length (events (bus ?w1)) + length ps - c)
        (events (bus ?w1) @ map record_of ps)\<rparr>\<rparr>)"
    by (rule Cons.IH) (use Cons.prems in simp_all)
  have eq: "drop (length (events (bus ?w1)) + length ps - c) (events (bus ?w1) @ map record_of ps)
      = drop (length ?evs + length (p # ps) - c) (?evs @ map record_of (p # ps))"
  proof (cases "length ?evs = c")
    case True
    then have "?evs \<noteq> []" using Cons.prems by auto
    then show ?thesis using True by (cases ?evs) simp_all
  next
    case False
    then show ?thesis using Cons.prems by simp
  qed
  show ?case using l ih eq by simp
qed

lemma log_all_New:
  "log_all New_world ps =
     Inr (New_world\<lparr>bus := New\<lparr>events := drop (length ps - eventsLimit) (map record_of ps)\<rparr>\<rparr>)"
  using log_all_no_subscribers [of New_world eventsLimit ps]
  by (simp add: New_world_def New_def eventsLimit_def)

text \<open>
  C1. On a new bus, after any sequence of publishes, the history buffer holds the
  records of all of them in the order of insertion when there are at most
  \<open>eventsLimit\<close> = 64, and otherwise exactly the last 64 in their order, the oldest
  ones gone; no publish panics, and after every prefix of the sequence (the state
  after the \<open>k\<close>-th publish) the buffer holds at most 64 records.
\<close>

theorem history_buffer_keeps_last_records:
  "\<exists>w. log_all New_world ps = Inr w
      \<and> events (bus w) =
          (if length ps \<le> eventsLimit then map record_of ps
           else drop (length ps - eventsLimit) (map record_of ps))
      \<and> (if length ps \<le> eventsLimit then length (events (bus w)) = length ps
         else length (events (bus w)) = eventsLimit)
      \<and> (\<forall>k. \<exists>wk. log_all New_world (take k ps) = Inr wk
             \<and> length (events (bus wk)) \<le> eventsLimit)"
proof -
  have "\<exists>wk. log_all New_world (take k ps) = Inr wk \<and> length (events (bus wk)) \<le> eventsLimit" for k
    by (simp add: log_all_New [of "take k ps"]) 
  then show ?thesis
    by (simp add: log_all_New [of ps])
qed

theorem history_buffer_witness:
  "\<exists>w. log_all New_world (map sample_publish [0..<66]) = Inr w
     \<and> events (bus w) = map (record_of \<circ> sample_publish) [2..<66]
     \<and> length (events (bus w)) = 64"
proof -
  let ?ps = "map sample_publish [0..<66]"
  obtain w where w: "log_all New_world ?ps = Inr w"
    and ev: "events (bus w) =
          (if length ?ps \<le> eventsLimit then map record_of ?ps
           else drop (length ?ps - eventsLimit) (map record_of ?ps))"
    and len: "if length ?ps \<le> eventsLimit then length (events (bus w)) = length ?ps
         else length (events (bus w)) = eventsLimit"
    using history_buffer_keeps_last_records [of ?ps] by blast
  have "events (bus w) = map (record_of \<circ> sample_publish) [2..<66]"
    using ev by (simp add: eventsLimit_def drop_map drop_upt numeral_2_eq_2 del: upt_rec_numeral)
  moreover have "length (events (bus w)) = 64"
    using len by (simp add: eventsLimit_def)
  ultimately show ?thesis using w by blast
qed

subsection \<open>Replay\<close>

lemma writeCurrent_loop_filter:
  "writeCurrent_loop x since until out fs evs =
     writeEvents x out fs (filter (in_window since until) evs)"
  by (induction evs arbitrary: out fs) (auto split: prod.splits option.splits)

lemma resolve_containers_none:
  "args_get fs ''container'' = [] \<Longrightarrow> resolve_containers x fs = fs"
  by (auto simp: resolve_containers_def args_get_def split: option.splits)

lemma isFiltered_Nil: "isFiltered field [] = False"
  by (simp add: isFiltered_def)

lemma writeEvent_plain:
  assumes "\<And>out b. Write x out b = (out @ [b], None)" "\<And>event. Marshal x event = Inr (enc event)"
    and "args_get fs ''event'' = []" "args_get fs ''image'' = []" "args_get fs ''container'' = []"
  shows "writeEvent x out event fs = (fs, out @ [enc event], None)"
  using assms by (simp add: writeEvent_def resolve_containers_none isFiltered_Nil)

lemma writeEvents_plain:
  assumes "\<And>out b. Write x out b = (out @ [b], None)" "\<And>event. Marshal x event = Inr (enc event)"
    and "args_get fs ''event'' = []" "args_get fs ''image'' = []" "args_get fs ''container'' = []"
  shows "writeEvents x out fs evs = (fs, out @ map enc evs, None)"
proof (induction evs arbitrary: out)
  case Nil
  show ?case by simp
next
  case (Cons ev evs)
  show ?case by (simp add: writeEvent_plain [OF assms] Cons.IH)
qed

lemma window_empty:
  assumes "until \<noteq> 0" "sint until < sint since"
  shows "filter (in_window since until) evs = []"
  using assms by (auto simp: in_window_def filter_empty_conv)

text \<open>
  C2. For every buffer, every \<open>since\<close> and \<open>until\<close>, every sink and every filter set,
  \<^verbatim>\<open>writeCurrent\<close> hands to \<^verbatim>\<open>writeEvent\<close>, in the order of insertion, exactly the stored
  records whose time \<open>t\<close> has \<open>since \<le> t\<close> and (\<open>t \<le> until\<close> or \<open>until = 0\<close>), and leaves
  the bus as it was. With a sink that accepts every chunk, an encoder that succeeds
  and no filter values, the sink receives exactly the encodings of those records,
  in that order. With \<open>until \<noteq> 0\<close> and \<open>until < since\<close> nothing is emitted and no
  error is returned.
\<close>

theorem replay_emits_window:
  "writeCurrent x since until out fs e =
     (e, writeEvents x out fs
           (filter (\<lambda>event. sint since \<le> sint (Time event)
                       \<and> (sint (Time event) \<le> sint until \<or> until = 0)) (events e)))
   \<and> ((\<forall>sink b. Write y sink b = (sink @ [b], None)) \<and> (\<forall>event. Marshal y event = Inr (enc event))
        \<and> args_get fs ''event'' = [] \<and> args_get fs ''image'' = [] \<and> args_get fs ''container'' = []
      \<longrightarrow> writeCurrent y since until lines fs e =
            (e, fs, lines @ map enc
               (filter (\<lambda>event. sint since \<le> sint (Time event)
                       \<and> (sint (Time event) \<le> sint until \<or> until = 0)) (events e)), None))
   \<and> (until \<noteq> 0 \<and> sint until < sint since
      \<longrightarrow> writeCurrent x since until out fs e = (e, fs, out, None))"
proof -
  have w: "in_window since until = (\<lambda>event. sint since \<le> sint (Time event)
                       \<and> (sint (Time event) \<le> sint until \<or> until = 0))"
    by (rule ext) (simp add: in_window_def)
  have a: "writeCurrent z since until o' fs e = (e, writeEvents z o' fs (filter (in_window since until) (events e)))" for z :: "'z ext" and o'
    by (simp add: writeCurrent_def writeCurrent_loop_filter)
  show ?thesis
    using a [of x out] a [of y lines]
    by (auto simp: writeEvents_plain window_empty simp flip: w)
qed

lemma lines_ext_simps:
  "Write lines_ext sink b = (sink @ [b], None)"
  "Marshal lines_ext event = Inr (Status event @ '' '' @ ID event @ '' '' @ From event)"
  by (simp_all add: lines_ext_def)

theorem replay_window_witness:
  "writeCurrent lines_ext 15 25 [] Map.empty sample_bus =
     (sample_bus, Map.empty, [''start c1 img:latest''], None)
   \<and> writeCurrent lines_ext 15 0 [] Map.empty sample_bus =
     (sample_bus, Map.empty, [''start c1 img:latest'', ''die c1 img:latest''], None)
   \<and> writeCurrent lines_ext 25 15 [''x''] Map.empty sample_bus = (sample_bus, Map.empty, [''x''], None)"
proof -
  let ?enc = "\<lambda>event. Status event @ '' '' @ ID event @ '' '' @ From event"
  have plain: "(\<forall>sink b. Write lines_ext sink b = (sink @ [b], None))
      \<and> (\<forall>event. Marshal lines_ext event = Inr (?enc event))
      \<and> args_get Map.empty ''event'' = [] \<and> args_get Map.empty ''image'' = []
      \<and> args_get Map.empty ''container'' = []"
    by (simp add: lines_ext_simps args_get_def)
  have "writeCurrent lines_ext 15 25 [] Map.empty sample_bus =
     (sample_bus, Map.empty, [''start c1 img:latest''], None)"
    using replay_emits_window [of lines_ext 15 25 "[]" Map.empty sample_bus lines_ext ?enc "[]", THEN conjunct2] plain
    by (simp add: sample_bus_def sample_record_def)
  moreover have "writeCurrent lines_ext 15 0 [] Map.empty sample_bus =
     (sample_bus, Map.empty, [''start c1 img:latest'', ''die c1 img:latest''], None)"
    using replay_emits_window [of lines_ext 15 0 "[]" Map.empty sample_bus lines_ext ?enc "[]", THEN conjunct2] plain
    by (simp add: sample_bus_def sample_record_def)
  moreover have "writeCurrent lines_ext 25 15 [''x''] Map.empty sample_bus =
     (sample_bus, Map.empty, [''x''], None)"
    using replay_emits_window [of lines_ext 25 15 "[''x'']" Map.empty sample_bus, THEN conjunct2]
    by simp
  ultimately show ?thesis by blast
qed

subsection \<open>The filter\<close>

lemma Split_nonempty: "Split s c \<noteq> []"
  by (induction s) (auto split: list.splits)

lemma Split_first: "Split s c ! 0 = takeWhile (\<lambda>a. a \<noteq> c) s"
  by (induction s) (auto split: list.splits simp: Split_nonempty)

lemma first_piece_prefix:
  "(c \<in> set field \<and> takeWhile (\<lambda>a. a \<noteq> c) field = v) \<longleftrightarrow> (c \<notin> set v \<and> prefix (v @ [c]) field)"
proof
  assume a: "c \<in> set field \<and> takeWhile (\<lambda>a. a \<noteq> c) field = v"
  then have d: "dropWhile (\<lambda>a. a \<noteq> c) field \<noteq> []" by auto
  then have "hd (dropWhile (\<lambda>a. a \<noteq> c) field) = c"
    using hd_dropWhile [of "\<lambda>a. a \<noteq> c" field] by simp
  with d obtain rest where "dropWhile (\<lambda>a. a \<noteq> c) field = c # rest"
    by (cases "dropWhile (\<lambda>a. a \<noteq> c) field") auto
  then have "field = v @ c # rest"
    using a takeWhile_dropWhile_id [of "\<lambda>a. a \<noteq> c" field] by simp
  moreover have "c \<notin> set v" using a set_takeWhileD [of c "\<lambda>a. a \<noteq> c" field] by auto
  ultimately show "c \<notin> set v \<and> prefix (v @ [c]) field" by (auto simp: prefix_def)
next
  assume b: "c \<notin> set v \<and> prefix (v @ [c]) field"
  then obtain rest where f: "field = v @ c # rest" by (auto simp: prefix_def)
  have "takeWhile (\<lambda>a. a \<noteq> c) (v @ c # rest) = v"
    using b by (auto simp: takeWhile_tail)
  with f show "c \<in> set field \<and> takeWhile (\<lambda>a. a \<noteq> c) field = v" by simp
qed

lemma isFiltered_loop_iff:
  "isFiltered_loop field vs \<longleftrightarrow>
     (\<forall>v\<in>set vs. v \<noteq> field \<and> \<not> (CHR '':'' \<notin> set v \<and> prefix (v @ '':'') field))"
  by (induction vs) (auto simp: Split_first first_piece_prefix [symmetric])

lemma isFiltered_iff:
  "isFiltered field vs \<longleftrightarrow>
     vs \<noteq> [] \<and> (\<forall>v\<in>set vs. v \<noteq> field \<and> \<not> (CHR '':'' \<notin> set v \<and> prefix (v @ '':'') field))"
  by (simp add: isFiltered_def isFiltered_loop_iff)

lemma writeEvent_recorded:
  assumes "\<And>sink b. Write y sink b = (sink @ [b], None)" "\<And>event. Marshal y event = Inr (enc event)"
  shows "writeEvent y lines event fs =
     (resolve_containers y fs,
      (if isFiltered (Status event) (args_get (resolve_containers y fs) ''event'')
          \<or> isFiltered (From event) (args_get (resolve_containers y fs) ''image'')
          \<or> isFiltered (ID event) (args_get (resolve_containers y fs) ''container'')
       then lines else lines @ [enc event]), None)"
  using assms by (simp add: writeEvent_def Let_def)

lemma lines_ext_inspect:
  "container_inspect lines_ext name =
     (if name = ''web'' \<or> name = ''4f2a'' then Inr ''4f2a'' else Inl (Error ''no such container''))"
  "decode_ID lines_ext buf = buf"
  by (simp_all add: lines_ext_def)

lemma writeEvent_suppressed:
  assumes "isFiltered (Status event) (args_get (resolve_containers x fs) ''event'')
          \<or> isFiltered (From event) (args_get (resolve_containers x fs) ''image'')
          \<or> isFiltered (ID event) (args_get (resolve_containers x fs) ''container'')"
  shows "writeEvent x out event fs = (resolve_containers x fs, out, None)"
  using assms by (simp add: writeEvent_def Let_def)

lemma writeEvent_passed:
  assumes "\<not> isFiltered (Status event) (args_get (resolve_containers x fs) ''event'')"
    "\<not> isFiltered (From event) (args_get (resolve_containers x fs) ''image'')"
    "\<not> isFiltered (ID event) (args_get (resolve_containers x fs) ''container'')"
  shows "writeEvent x out event fs =
     (case Marshal x event of
        Inr b \<Rightarrow> (case Write x out b of (out', err) \<Rightarrow> (resolve_containers x fs, out', err))
      | Inl err \<Rightarrow> (resolve_containers x fs, out, None))"
  using assms by (simp add: writeEvent_def Let_def)

lemma args_get_absent: "fs k = None \<Longrightarrow> args_get fs k = []"
  by (simp add: args_get_def)

text \<open>
  C4. \<^verbatim>\<open>writeEvent\<close> suppresses a record exactly when at least one of the three
  dimension checks fails, and goes on to encode and write it only when all three
  pass; a dimension without values, or absent from the filters, passes. A record
  from \<^verbatim>\<open>repo:tag\<close> passes the source value \<^verbatim>\<open>repo\<close>, and a record of status
  \<^verbatim>\<open>start\<close> is suppressed by the status filter \<^verbatim>\<open>stop\<close>.
\<close>

theorem filter_is_conjunction_of_dimensions:
  "(isFiltered (Status event) (args_get (resolve_containers x fs) ''event'')
      \<or> isFiltered (From event) (args_get (resolve_containers x fs) ''image'')
      \<or> isFiltered (ID event) (args_get (resolve_containers x fs) ''container'')
     \<longrightarrow> writeEvent x out event fs = (resolve_containers x fs, out, None))
   \<and> (\<not> isFiltered (Status event) (args_get (resolve_containers x fs) ''event'')
      \<and> \<not> isFiltered (From event) (args_get (resolve_containers x fs) ''image'')
      \<and> \<not> isFiltered (ID event) (args_get (resolve_containers x fs) ''container'')
     \<longrightarrow> writeEvent x out event fs =
          (case Marshal x event of
             Inr b \<Rightarrow> (case Write x out b of (out', err) \<Rightarrow> (resolve_containers x fs, out', err))
           | Inl err \<Rightarrow> (resolve_containers x fs, out, None)))
   \<and> ((\<forall>sink b. Write y sink b = (sink @ [b], None)) \<and> (\<forall>ev. Marshal y ev = Inr (enc ev))
     \<longrightarrow> writeEvent y lines event fs =
          (resolve_containers y fs,
           (if isFiltered (Status event) (args_get (resolve_containers y fs) ''event'')
               \<or> isFiltered (From event) (args_get (resolve_containers y fs) ''image'')
               \<or> isFiltered (ID event) (args_get (resolve_containers y fs) ''container'')
            then lines else lines @ [enc event]), None))
   \<and> \<not> isFiltered field []
   \<and> (fs k = None \<longrightarrow> args_get fs k = [])
   \<and> \<not> isFiltered ''repo:tag'' [''repo'']
   \<and> isFiltered ''start'' [''stop'']"
proof -
  have ex: "\<not> isFiltered ''repo:tag'' [''repo'']" "isFiltered ''start'' [''stop'']"
    by (simp_all add: isFiltered_def)
  have rec: "writeEvent y lines event fs =
          (resolve_containers y fs,
           (if isFiltered (Status event) (args_get (resolve_containers y fs) ''event'')
               \<or> isFiltered (From event) (args_get (resolve_containers y fs) ''image'')
               \<or> isFiltered (ID event) (args_get (resolve_containers y fs) ''container'')
            then lines else lines @ [enc event]), None)"
    if "\<forall>sink b. Write y sink b = (sink @ [b], None)" "\<forall>ev. Marshal y ev = Inr (enc ev)"
    using that by (intro writeEvent_recorded) simp_all
  show ?thesis
    using writeEvent_suppressed [of event x fs out] writeEvent_passed [of event x fs out]
      rec isFiltered_Nil [of field] args_get_absent [of fs k] ex
    by blast
qed

theorem filter_conjunction_witness:
  "writeEvent lines_ext [] \<lparr>Status = ''start'', ID = ''c1'', From = ''repo:tag'', Time = 3\<rparr>
       [''image'' \<mapsto> [''repo'']]
     = ([''image'' \<mapsto> [''repo'']], [''start c1 repo:tag''], None)
   \<and> writeEvent lines_ext [] \<lparr>Status = ''start'', ID = ''c1'', From = ''repo:tag'', Time = 3\<rparr>
       [''image'' \<mapsto> [''repo''], ''event'' \<mapsto> [''stop'']]
     = ([''image'' \<mapsto> [''repo''], ''event'' \<mapsto> [''stop'']], [], None)
   \<and> writeEvent broken_ext [] \<lparr>Status = ''start'', ID = ''c1'', From = ''repo:tag'', Time = 3\<rparr>
       [''image'' \<mapsto> [''repo'']]
     = ([''image'' \<mapsto> [''repo'']], [], Some (Error ''broken pipe''))
   \<and> args_get [''image'' \<mapsto> [''repo'']] ''event'' = []"
proof -
  let ?enc = "\<lambda>event. Status event @ '' '' @ ID event @ '' '' @ From event"
  let ?ev = "\<lparr>Status = ''start'', ID = ''c1'', From = ''repo:tag'', Time = 3\<rparr>"
  let ?f1 = "[''image'' \<mapsto> [''repo'']]"
  let ?f2 = "[''image'' \<mapsto> [''repo''], ''event'' \<mapsto> [''stop'']]"
  note t1 = filter_is_conjunction_of_dimensions
    [of ?ev lines_ext ?f1 "[]" lines_ext ?enc "[]" "[]" "''event''"]
  note t2 = filter_is_conjunction_of_dimensions
    [of ?ev lines_ext ?f2 "[]" lines_ext ?enc "[]" "[]" "''event''"]
  have sink: "(\<forall>sink b. Write lines_ext sink b = (sink @ [b], None))
      \<and> (\<forall>event. Marshal lines_ext event = Inr (?enc event))"
    by (simp add: lines_ext_simps)
  have r: "resolve_containers lines_ext ?f1 = ?f1" "resolve_containers lines_ext ?f2 = ?f2"
    by (simp_all add: resolve_containers_def)
  have "writeEvent lines_ext [] ?ev ?f1 = (?f1, [''start c1 repo:tag''], None)"
    using t1 [THEN conjunct2, THEN conjunct2, THEN conjunct1] sink
    by (simp add: r args_get_def isFiltered_def)
  moreover have "writeEvent lines_ext [] ?ev ?f2 = (?f2, [], None)"
    using t2 [THEN conjunct1] t2 [THEN conjunct2, THEN conjunct2, THEN conjunct2, THEN conjunct2,
        THEN conjunct2, THEN conjunct2]
    by (simp add: r args_get_def)
  moreover have "writeEvent broken_ext [] ?ev ?f1 = (?f1, [], Some (Error ''broken pipe''))"
  proof -
    have rb: "resolve_containers broken_ext ?f1 = ?f1"
      by (simp add: resolve_containers_def)
    have "\<not> isFiltered (Status ?ev) (args_get ?f1 ''event'')
        \<and> \<not> isFiltered (From ?ev) (args_get ?f1 ''image'')
        \<and> \<not> isFiltered (ID ?ev) (args_get ?f1 ''container'')"
      by (simp add: args_get_def isFiltered_def)
    moreover have "Marshal broken_ext ?ev = Inr ''start c1 repo:tag''"
      "Write broken_ext [] ''start c1 repo:tag'' = ([], Some (Error ''broken pipe''))"
      by (simp_all add: broken_ext_def lines_ext_def)
    ultimately show ?thesis
      using filter_is_conjunction_of_dimensions [where event = ?ev and x = broken_ext
          and fs = ?f1 and out = "[]", THEN conjunct2, THEN conjunct1]
      by (simp add: rb)
  qed
  moreover have "args_get ?f1 ''event'' = []"
    using t1 [THEN conjunct2, THEN conjunct2, THEN conjunct2, THEN conjunct2, THEN conjunct1]
    by simp
  ultimately show ?thesis by blast
qed

lemma GetContainerId_unresolved:
  "container_inspect x name = Inl err \<Longrightarrow> GetContainerId x name = []"
  by (simp add: GetContainerId_def)

lemma args_get_resolved:
  "args_get (resolve_containers x fs) ''container'' = map (GetContainerId x) (args_get fs ''container'')"
  "k \<noteq> ''container'' \<Longrightarrow> args_get (resolve_containers x fs) k = args_get fs k"
  by (auto simp: resolve_containers_def args_get_def split: option.splits)

lemma isFiltered_empty_values:
  assumes "vals \<noteq> []" "set vals \<subseteq> {[]}"
  shows "isFiltered ident vals \<longleftrightarrow> ident \<noteq> [] \<and> hd ident \<noteq> CHR '':''"
proof -
  have s: "set vals = {[]}" using assms by (cases vals) auto
  show ?thesis
    by (cases ident) (auto simp: isFiltered_iff assms(1) s)
qed

text \<open>
  C8, as the code has it. \<^verbatim>\<open>writeEvent\<close> replaces every container value by what
  \<^verbatim>\<open>GetContainerId\<close> returns for it before it evaluates the filter, and a name whose
  lookup fails becomes the empty string. A container list of empty strings only
  suppresses exactly the records whose subject identifier is neither empty nor
  starts with \<^verbatim>\<open>:\<close>; no error is returned.
\<close>

theorem unresolved_container_filter:
  "(container_inspect x name = Inl err \<longrightarrow> GetContainerId x name = [])
   \<and> fst (writeEvent x out event fs) = resolve_containers x fs
   \<and> args_get (resolve_containers x fs) ''container'' = map (GetContainerId x) (args_get fs ''container'')
   \<and> (vals \<noteq> [] \<and> set vals \<subseteq> {[]}
      \<longrightarrow> (isFiltered ident vals \<longleftrightarrow> ident \<noteq> [] \<and> hd ident \<noteq> CHR '':''))
   \<and> (args_get fs ''container'' \<noteq> []
        \<and> (\<forall>name\<in>set (args_get fs ''container''). \<exists>err. container_inspect x name = Inl err)
        \<and> ID event \<noteq> [] \<and> hd (ID event) \<noteq> CHR '':''
      \<longrightarrow> writeEvent x out event fs = (resolve_containers x fs, out, None))"
proof -
  have f: "fst (writeEvent x out event fs) = resolve_containers x fs"
    by (simp add: writeEvent_def Let_def split: sum.splits prod.splits)
  have w: "writeEvent x out event fs = (resolve_containers x fs, out, None)"
    if a: "args_get fs ''container'' \<noteq> []"
      and b: "\<forall>name\<in>set (args_get fs ''container''). \<exists>err. container_inspect x name = Inl err"
      and c: "ID event \<noteq> []" "hd (ID event) \<noteq> CHR '':''"
  proof -
    have "set (map (GetContainerId x) (args_get fs ''container'')) \<subseteq> {[]}"
      using b by (auto simp: GetContainerId_def)
    then have "isFiltered (ID event) (args_get (resolve_containers x fs) ''container'')"
      using a c by (simp add: args_get_resolved isFiltered_empty_values)
    then show ?thesis by (simp add: writeEvent_suppressed)
  qed
  show ?thesis
    using GetContainerId_unresolved [of x name err] f args_get_resolved(1) [of x fs]
      isFiltered_empty_values [of vals ident] w
    by blast
qed

text \<open>
  The claim as stated fails on a record whose subject identifier is empty, which
  \<^verbatim>\<open>log\<close> stores as any other, and on one whose identifier starts with \<^verbatim>\<open>:\<close>: both
  are written although the container values are empty strings only.
\<close>

theorem unresolved_container_counterexample:
  "GetContainerId lines_ext ''nosuch'' = []
   \<and> writeEvent lines_ext [] \<lparr>Status = ''untag'', ID = [], From = ''img'', Time = 7\<rparr>
       [''container'' \<mapsto> [''nosuch'']]
     = ([''container'' \<mapsto> [[]]], [''untag  img''], None)
   \<and> writeEvent lines_ext [] \<lparr>Status = ''untag'', ID = '':1'', From = ''img'', Time = 7\<rparr>
       [''container'' \<mapsto> [[]]]
     = ([''container'' \<mapsto> [[]]], [''untag :1 img''], None)
   \<and> log_all New_world
        [\<lparr>p_action = ''untag'', p_id = [], p_from = ''img'', p_now = 7, p_env = quiet\<rparr>]
     = Inr (New_world\<lparr>bus := New\<lparr>events :=
         [\<lparr>Status = ''untag'', ID = [], From = ''img'', Time = 7\<rparr>]\<rparr>\<rparr>)"
  by (simp add: writeEvent_def resolve_containers_def GetContainerId_def args_get_def
      isFiltered_def lines_ext_simps lines_ext_inspect log_def store_event_def
      New_world_def New_def eventsLimit_def)

theorem unresolved_container_witness:
  "GetContainerId lines_ext ''nosuch'' = []
   \<and> isFiltered ''c1'' [[], []]
   \<and> \<not> isFiltered [] [[], []]
   \<and> writeEvent lines_ext [] \<lparr>Status = ''start'', ID = ''c1'', From = ''img'', Time = 7\<rparr>
       [''container'' \<mapsto> [''nosuch'', ''gone'']]
     = ([''container'' \<mapsto> [[], []]], [], None)"
proof -
  let ?ev = "\<lparr>Status = ''start'', ID = ''c1'', From = ''img'', Time = 7\<rparr>"
  let ?fs = "[''container'' \<mapsto> [''nosuch'', ''gone'']]"
  note t = unresolved_container_filter [of lines_ext "''nosuch''" "Error ''no such container''" "[]" ?ev ?fs
      "[[], []]"]
  have g: "GetContainerId lines_ext ''nosuch'' = []"
    using t [of "''c1''"] by (simp add: lines_ext_inspect)
  have i1: "isFiltered ''c1'' [[], []]"
    using t [of "''c1''"] by simp
  have i2: "\<not> isFiltered [] [[], []]"
    using t [of "[]"] by simp
  have r: "resolve_containers lines_ext ?fs = [''container'' \<mapsto> [[], []]]"
    by (simp add: resolve_containers_def GetContainerId_def lines_ext_inspect)
  have "writeEvent lines_ext [] ?ev ?fs = ([''container'' \<mapsto> [[], []]], [], None)"
    using t [of "''c1''"] by (simp add: r args_get_def lines_ext_inspect)
  then show ?thesis using g i1 i2 by blast
qed

lemma prefix_single_separator:
  assumes "count_list field c \<le> 1" "prefix (v @ [c]) field"
  shows "c \<notin> set v"
proof -
  from assms(2) obtain rest where "field = v @ c # rest" by (auto simp: prefix_def)
  with assms(1) have "count_list v c = 0" by simp
  then show ?thesis by (simp add: count_list_0_iff)
qed

lemma isFiltered_if_no_match:
  assumes "vals \<noteq> []" "\<forall>v\<in>set vals. \<not> value_matches field v"
  shows "isFiltered field vals"
  using assms by (auto simp: isFiltered_iff value_matches_def)

lemma isFiltered_equal_value: "field \<in> set vals \<Longrightarrow> \<not> isFiltered field vals"
  by (auto simp: isFiltered_iff)

lemma isFiltered_single_separator:
  assumes "count_list field CHR '':'' \<le> 1"
  shows "\<not> isFiltered field vals \<longleftrightarrow> dimension_passes field vals"
  using prefix_single_separator [OF assms]
  by (auto simp: isFiltered_iff dimension_passes_def value_matches_def)

text \<open>
  C3, as the code has it. The closure \<^verbatim>\<open>isFiltered\<close> is the same for the three
  dimensions, status, source and subject identifier, the last being checked against
  the container values as \<^verbatim>\<open>GetContainerId\<close> has resolved them. On a dimension with
  values, a value equal to the field always matches, and a value that neither equals
  the field nor is followed by \<^verbatim>\<open>:\<close> at its start never does. For a field that holds at
  most one \<^verbatim>\<open>:\<close>, the form \<^verbatim>\<open>name:tag\<close>, the field matches a value exactly when it
  equals it or starts with it immediately followed by \<^verbatim>\<open>:\<close>; and a record whose three
  fields are of that form is written exactly when each of them passes its dimension
  under this rule. Nothing is said here of a field with more than one \<^verbatim>\<open>:\<close> and a
  value that is a proper prefix of it.
\<close>

theorem filter_rule_same_on_all_dimensions:
  "(vals \<noteq> [] \<and> (\<forall>v\<in>set vals. \<not> value_matches field v) \<longrightarrow> isFiltered field vals)
   \<and> (field \<in> set vals \<longrightarrow> \<not> isFiltered field vals)
   \<and> (count_list field CHR '':'' \<le> 1 \<longrightarrow>
        (\<not> isFiltered field vals \<longleftrightarrow> dimension_passes field vals))
   \<and> ((\<forall>sink b. Write y sink b = (sink @ [b], None)) \<and> (\<forall>ev. Marshal y ev = Inr (enc ev))
        \<and> count_list (Status event) CHR '':'' \<le> 1 \<and> count_list (From event) CHR '':'' \<le> 1
        \<and> count_list (ID event) CHR '':'' \<le> 1
      \<longrightarrow> writeEvent y lines event fs =
            (resolve_containers y fs,
             (if dimension_passes (Status event) (args_get fs ''event'')
                 \<and> dimension_passes (From event) (args_get fs ''image'')
                 \<and> dimension_passes (ID event) (map (GetContainerId y) (args_get fs ''container''))
              then lines @ [enc event] else lines), None))"
proof -
  have w: "writeEvent y lines event fs =
            (resolve_containers y fs,
             (if dimension_passes (Status event) (args_get fs ''event'')
                 \<and> dimension_passes (From event) (args_get fs ''image'')
                 \<and> dimension_passes (ID event) (map (GetContainerId y) (args_get fs ''container''))
              then lines @ [enc event] else lines), None)"
    if s: "\<forall>sink b. Write y sink b = (sink @ [b], None)" "\<forall>ev. Marshal y ev = Inr (enc ev)"
      and c: "count_list (Status event) CHR '':'' \<le> 1" "count_list (From event) CHR '':'' \<le> 1"
        "count_list (ID event) CHR '':'' \<le> 1"
  proof -
    have "writeEvent y lines event fs =
       (resolve_containers y fs,
        (if isFiltered (Status event) (args_get (resolve_containers y fs) ''event'')
            \<or> isFiltered (From event) (args_get (resolve_containers y fs) ''image'')
            \<or> isFiltered (ID event) (args_get (resolve_containers y fs) ''container'')
         then lines else lines @ [enc event]), None)"
      using s by (intro writeEvent_recorded) simp_all
    then show ?thesis
      using isFiltered_single_separator [OF c(1)] isFiltered_single_separator [OF c(2)]
        isFiltered_single_separator [OF c(3)]
      by (auto simp: args_get_resolved)
  qed
  show ?thesis
    using isFiltered_if_no_match [of vals field] isFiltered_equal_value [of field vals]
      isFiltered_single_separator [of field vals] w
    by blast
qed

text \<open>
  The claim as stated fails: a status \<^verbatim>\<open>die:137\<close> passes the status value \<^verbatim>\<open>die\<close> and a
  subject identifier \<^verbatim>\<open>4f2a:1\<close> passes the container value \<^verbatim>\<open>4f2a\<close>, neither being equal
  to it.
\<close>

theorem filter_rule_counterexample:
  "writeEvent lines_ext [] \<lparr>Status = ''die:137'', ID = ''c1'', From = ''img'', Time = 3\<rparr>
       [''event'' \<mapsto> [''die'']]
     = ([''event'' \<mapsto> [''die'']], [''die:137 c1 img''], None)
   \<and> ''die:137'' \<noteq> ''die''
   \<and> writeEvent lines_ext [] \<lparr>Status = ''die'', ID = ''4f2a:1'', From = ''img'', Time = 3\<rparr>
       [''container'' \<mapsto> [''4f2a'']]
     = ([''container'' \<mapsto> [''4f2a'']], [''die 4f2a:1 img''], None)
   \<and> ''4f2a:1'' \<noteq> ''4f2a''"
  by (simp add: writeEvent_def resolve_containers_def GetContainerId_def args_get_def
      isFiltered_def lines_ext_simps lines_ext_inspect)

theorem filter_rule_witness:
  "isFiltered ''start'' [''stop'', ''die'']
   \<and> \<not> isFiltered ''die'' [''kill'', ''die'']
   \<and> \<not> isFiltered ''die:137'' [''kill'', ''die'']
   \<and> isFiltered ''web'' [''4f2a'']
   \<and> writeEvent lines_ext [] \<lparr>Status = ''die:137'', ID = ''4f2a:1'', From = ''img:latest'', Time = 3\<rparr>
       [''event'' \<mapsto> [''kill'', ''die''], ''image'' \<mapsto> [''img''], ''container'' \<mapsto> [''web'']]
     = ([''event'' \<mapsto> [''kill'', ''die''], ''image'' \<mapsto> [''img''], ''container'' \<mapsto> [''4f2a'']],
        [''die:137 4f2a:1 img:latest''], None)
   \<and> writeEvent lines_ext [] \<lparr>Status = ''die'', ID = ''web'', From = ''img:latest'', Time = 3\<rparr>
       [''container'' \<mapsto> [''web'']]
     = ([''container'' \<mapsto> [''4f2a'']], [], None)"
proof -
  let ?enc = "\<lambda>event. Status event @ '' '' @ ID event @ '' '' @ From event"
  have sink: "(\<forall>sink b. Write lines_ext sink b = (sink @ [b], None))
      \<and> (\<forall>event. Marshal lines_ext event = Inr (?enc event))"
    by (simp add: lines_ext_simps)
  have g: "GetContainerId lines_ext ''web'' = ''4f2a''"
    by (simp add: GetContainerId_def lines_ext_inspect)
  have a1: "isFiltered ''start'' [''stop'', ''die'']"
    using filter_rule_same_on_all_dimensions [where vals = "[''stop'', ''die'']"
        and field = "''start''", THEN conjunct1]
    by (simp add: value_matches_def)
  have a2: "\<not> isFiltered ''die'' [''kill'', ''die'']"
    using filter_rule_same_on_all_dimensions [where vals = "[''kill'', ''die'']"
        and field = "''die''", THEN conjunct2, THEN conjunct1]
    by simp
  have a3: "\<not> isFiltered ''die:137'' [''kill'', ''die'']"
    using filter_rule_same_on_all_dimensions [where vals = "[''kill'', ''die'']"
        and field = "''die:137''", THEN conjunct2, THEN conjunct2, THEN conjunct1]
    by (simp add: dimension_passes_def value_matches_def)
  have a4: "isFiltered ''web'' [''4f2a'']"
    using filter_rule_same_on_all_dimensions [where vals = "[''4f2a'']"
        and field = "''web''", THEN conjunct2, THEN conjunct2, THEN conjunct1]
    by (simp add: dimension_passes_def value_matches_def)
  have a5: "writeEvent lines_ext [] \<lparr>Status = ''die:137'', ID = ''4f2a:1'', From = ''img:latest'', Time = 3\<rparr>
       [''event'' \<mapsto> [''kill'', ''die''], ''image'' \<mapsto> [''img''], ''container'' \<mapsto> [''web'']]
     = ([''event'' \<mapsto> [''kill'', ''die''], ''image'' \<mapsto> [''img''], ''container'' \<mapsto> [''4f2a'']],
        [''die:137 4f2a:1 img:latest''], None)"
    using filter_rule_same_on_all_dimensions [where y = lines_ext and enc = ?enc and lines = "[]"
        and event = "\<lparr>Status = ''die:137'', ID = ''4f2a:1'', From = ''img:latest'', Time = 3\<rparr>"
        and fs = "[''event'' \<mapsto> [''kill'', ''die''], ''image'' \<mapsto> [''img''], ''container'' \<mapsto> [''web'']]",
        THEN conjunct2, THEN conjunct2, THEN conjunct2] sink
    by (simp add: resolve_containers_def g args_get_def dimension_passes_def value_matches_def)
  have a6: "writeEvent lines_ext [] \<lparr>Status = ''die'', ID = ''web'', From = ''img:latest'', Time = 3\<rparr>
       [''container'' \<mapsto> [''web'']]
     = ([''container'' \<mapsto> [''4f2a'']], [], None)"
    using filter_rule_same_on_all_dimensions [where y = lines_ext and enc = ?enc and lines = "[]"
        and event = "\<lparr>Status = ''die'', ID = ''web'', From = ''img:latest'', Time = 3\<rparr>"
        and fs = "[''container'' \<mapsto> [''web'']]",
        THEN conjunct2, THEN conjunct2, THEN conjunct2] sink
    by (simp add: resolve_containers_def g args_get_def dimension_passes_def value_matches_def)
  show ?thesis using a1 a2 a3 a4 a5 a6 by blast
qed

text \<open>
  The case left out above: the closure compares a value with the part of the field
  before its first \<^verbatim>\<open>:\<close> only, so that a source with a registry port does not match
  its own name without the tag.
\<close>

lemma first_colon_only:
  "isFiltered ''host:5000/img:latest'' [''host:5000/img'']
   \<and> prefix (''host:5000/img'' @ '':'') ''host:5000/img:latest''"
  by (simp add: isFiltered_def)

subsection \<open>The registry\<close>

lemma unsubscribe_loop_None: "unsubscribe_loop l i xs = None \<longleftrightarrow> l \<notin> set xs"
  by (induction xs arbitrary: i) auto

lemma unsubscribe_loop_Some:
  "l \<in> set xs \<Longrightarrow>
     \<exists>j. unsubscribe_loop l i xs = Some (i + j) \<and> j < length xs
        \<and> take j xs @ drop (Suc j) xs = remove1 l xs"
proof (induction xs arbitrary: i)
  case Nil
  then show ?case by simp
next
  case (Cons x xs)
  show ?case
  proof (cases "x = l")
    case True
    then show ?thesis by (intro exI [of _ 0]) simp
  next
    case False
    with Cons.prems have "l \<in> set xs" by simp
    from Cons.IH [OF this, of "Suc i"] obtain j where
      "unsubscribe_loop l (Suc i) xs = Some (Suc i + j)" "j < length xs"
      "take j xs @ drop (Suc j) xs = remove1 l xs" by blast
    with False show ?thesis by (intro exI [of _ "Suc j"]) simp
  qed
qed

lemma unsubscribe_absent:
  "l \<notin> set (subscribers (bus w)) \<Longrightarrow> unsubscribe l w = Inr (False, w)"
  by (simp add: unsubscribe_def unsubscribe_loop_None [THEN iffD2])

lemma unsubscribe_present:
  assumes "l \<in> set (subscribers (bus w))" "l < length (chans w)" "chans w ! l = Open"
  shows "unsubscribe l w =
     Inr (True, w\<lparr>bus := (bus w)\<lparr>subscribers := remove1 l (subscribers (bus w))\<rparr>,
                  chans := (chans w)[l := Closed]\<rparr>)"
proof -
  from unsubscribe_loop_Some [OF assms(1), of 0] obtain j where
    "unsubscribe_loop l 0 (subscribers (bus w)) = Some j"
    "take j (subscribers (bus w)) @ drop (Suc j) (subscribers (bus w)) = remove1 l (subscribers (bus w))"
    by auto
  then show ?thesis using assms(2,3) by (simp add: unsubscribe_def close_chan_def)
qed

lemma registry_ok_unsubscribe:
  assumes "registry_ok w" "unsubscribe l w = Inr (found, w')"
  shows "registry_ok w'"
proof (cases "l \<in> set (subscribers (bus w))")
  case False
  then show ?thesis using assms by (simp add: unsubscribe_absent)
next
  case True
  with assms(1) have o: "l < length (chans w)" "chans w ! l = Open"
    by (auto simp: registry_ok_def list_all_iff)
  have w': "w' = w\<lparr>bus := (bus w)\<lparr>subscribers := remove1 l (subscribers (bus w))\<rparr>,
                  chans := (chans w)[l := Closed]\<rparr>"
    using assms(2) unsubscribe_present [OF True o] by simp
  have "l \<notin> set (remove1 l (subscribers (bus w)))"
    using assms(1) by (simp add: registry_ok_def)
  then show ?thesis using assms(1) unfolding w'
    by (auto simp: registry_ok_def list_all_iff nth_list_update dest: notin_set_remove1)
qed

lemma store_event_keeps:
  "store_event jm e = Inr e' \<Longrightarrow> subscribers e' = subscribers e \<and> events_cap e' = events_cap e"
  by (auto simp: store_event_def Let_def split: if_splits)

lemma log_keeps_registry:
  assumes "log en now a i f w = Inr (w', offs, t)"
  shows "subscribers (bus w') = subscribers (bus w) \<and> chans w' = chans w"
  using assms
  by (auto simp: log_def Let_def split: sum.splits prod.splits dest: store_event_keeps)

lemma registry_ok_log:
  "registry_ok w \<Longrightarrow> log en now a i f w = Inr (w', offs, t) \<Longrightarrow> registry_ok w'"
  by (drule log_keeps_registry) (simp add: registry_ok_def)

lemma registry_ok_new_listener:
  assumes "registry_ok w" "new_listener w = (l, w')"
  shows "registry_ok w'" "l \<notin> set (subscribers (bus w))" "l = length (chans w)"
    "w' = w\<lparr>bus := (bus w)\<lparr>subscribers := subscribers (bus w) @ [l]\<rparr>, chans := chans w @ [Open]\<rparr>"
proof -
  show l: "l = length (chans w)" and w': "w' = w\<lparr>bus := (bus w)\<lparr>subscribers := subscribers (bus w) @ [l]\<rparr>, chans := chans w @ [Open]\<rparr>"
    using assms(2) by (auto simp: new_listener_def make_chan_def subscribe_def)
  show n: "l \<notin> set (subscribers (bus w))"
    using assms(1) l by (auto simp: registry_ok_def list_all_iff)
  show "registry_ok w'"
    using assms(1) n unfolding w' l
    by (auto simp: registry_ok_def list_all_iff nth_append)
qed

lemma registry_ok_New: "registry_ok New_world"
  by (simp add: registry_ok_def New_world_def New_def)

lemma reachable_registry_ok: "reachable w \<Longrightarrow> registry_ok w"
proof (induction rule: reachable.induct)
  case reach_New
  show ?case by (rule registry_ok_New)
next
  case (reach_log w en now action ident "from" w' offs t)
  then show ?case by (blast intro: registry_ok_log)
next
  case (reach_listen w l w')
  then show ?case by (blast intro: registry_ok_new_listener(1))
next
  case (reach_unsubscribe w l found w')
  then show ?case by (blast intro: registry_ok_unsubscribe)
qed

text \<open>
  C5. In a state where the registry holds every channel once and every channel it
  holds is open, which every state the program reaches is, \<^verbatim>\<open>unsubscribe\<close> of a
  registered channel closes it, removes it and returns \<open>true\<close>; the second call
  returns \<open>false\<close> and changes nothing, the channel store included, so that no
  second \<^verbatim>\<open>close\<close> is tried and nothing panics; over the two calls the count of
  subscribers goes down by one. \<^verbatim>\<open>unsubscribe\<close> of a channel that is not registered
  returns \<open>false\<close> and leaves the state as it was.
\<close>

theorem unsubscribe_once:
  "(registry_ok w \<and> l \<in> set (subscribers (bus w)) \<longrightarrow>
      (\<exists>w1. unsubscribe l w = Inr (True, w1)
         \<and> subscribers (bus w1) = remove1 l (subscribers (bus w))
         \<and> l \<notin> set (subscribers (bus w1))
         \<and> chans w1 = (chans w)[l := Closed] \<and> chans w1 ! l = Closed
         \<and> events (bus w1) = events (bus w)
         \<and> subscribersCount (bus w1) + 1 = subscribersCount (bus w)
         \<and> unsubscribe l w1 = Inr (False, w1)))
   \<and> (l \<notin> set (subscribers (bus w)) \<longrightarrow> unsubscribe l w = Inr (False, w))
   \<and> (reachable w \<longrightarrow> registry_ok w)"
proof -
  have first: "\<exists>w1. unsubscribe l w = Inr (True, w1)
         \<and> subscribers (bus w1) = remove1 l (subscribers (bus w))
         \<and> l \<notin> set (subscribers (bus w1))
         \<and> chans w1 = (chans w)[l := Closed] \<and> chans w1 ! l = Closed
         \<and> events (bus w1) = events (bus w)
         \<and> subscribersCount (bus w1) + 1 = subscribersCount (bus w)
         \<and> unsubscribe l w1 = Inr (False, w1)"
    if ok: "registry_ok w" and reg: "l \<in> set (subscribers (bus w))"
  proof -
    let ?w1 = "w\<lparr>bus := (bus w)\<lparr>subscribers := remove1 l (subscribers (bus w))\<rparr>,
                  chans := (chans w)[l := Closed]\<rparr>"
    from ok reg have o: "l < length (chans w)" "chans w ! l = Open"
      by (auto simp: registry_ok_def list_all_iff)
    have u: "unsubscribe l w = Inr (True, ?w1)"
      by (rule unsubscribe_present [OF reg o])
    have gone: "l \<notin> set (subscribers (bus ?w1))"
      using ok by (simp add: registry_ok_def)
    have again: "unsubscribe l ?w1 = Inr (False, ?w1)"
      by (rule unsubscribe_absent [OF gone])
    have count: "subscribersCount (bus ?w1) + 1 = subscribersCount (bus w)"
    proof -
      have "0 < length (subscribers (bus w))" using reg by (cases "subscribers (bus w)") auto
      then show ?thesis using reg by (simp add: subscribersCount_def length_remove1)
    qed
    show ?thesis
      using u gone again count o by (intro exI [of _ ?w1]) simp
  qed
  show ?thesis
    using first unsubscribe_absent [of l w] reachable_registry_ok [of w] by blast
qed

lemma reachable_sample_world: "reachable sample_world"
proof -
  let ?b = "\<lambda>subs. \<lparr>events = [], events_cap = eventsLimit, subscribers = subs\<rparr>"
  have r1: "reachable \<lparr>bus = ?b [0], chans = [Open]\<rparr>"
    by (rule reach_listen [OF reach_New, of 0])
      (simp add: new_listener_def make_chan_def subscribe_def New_world_def New_def)
  have r2: "reachable \<lparr>bus = ?b [0, 1], chans = [Open, Open]\<rparr>"
    by (rule reach_listen [OF r1, of 1])
      (simp add: new_listener_def make_chan_def subscribe_def)
  have r3: "reachable \<lparr>bus = ?b [0, 1, 2], chans = [Open, Open, Open]\<rparr>"
    by (rule reach_listen [OF r2, of 2])
      (simp add: new_listener_def make_chan_def subscribe_def)
  have "reachable \<lparr>bus = ?b [0, 2], chans = [Open, Closed, Open]\<rparr>"
    by (rule reach_unsubscribe [OF r3, of 1 True])
      (simp add: unsubscribe_def close_chan_def)
  then show ?thesis by (simp add: sample_world_def)
qed

theorem unsubscribe_once_witness:
  "registry_ok sample_world \<and> 2 \<in> set (subscribers (bus sample_world))
   \<and> unsubscribe 2 sample_world =
       Inr (True, \<lparr>bus = \<lparr>events = [], events_cap = eventsLimit, subscribers = [0]\<rparr>,
                   chans = [Open, Closed, Closed]\<rparr>)
   \<and> unsubscribe 2 \<lparr>bus = \<lparr>events = [], events_cap = eventsLimit, subscribers = [0]\<rparr>,
                   chans = [Open, Closed, Closed]\<rparr> =
       Inr (False, \<lparr>bus = \<lparr>events = [], events_cap = eventsLimit, subscribers = [0]\<rparr>,
                   chans = [Open, Closed, Closed]\<rparr>)
   \<and> unsubscribe 1 sample_world = Inr (False, sample_world)
   \<and> reachable sample_world"
proof -
  have ok: "registry_ok sample_world"
    using unsubscribe_once [of sample_world 0] reachable_sample_world by blast
  have reg: "2 \<in> set (subscribers (bus sample_world))"
    and no: "1 \<notin> set (subscribers (bus sample_world))"
    by (simp_all add: sample_world_def)
  from unsubscribe_once [of sample_world 2] ok reg obtain w1 where
    u: "unsubscribe 2 sample_world = Inr (True, w1)"
    and s: "subscribers (bus w1) = remove1 2 (subscribers (bus sample_world))"
    and c: "chans w1 = (chans sample_world)[2 := Closed]"
    and e: "events (bus w1) = events (bus sample_world)"
    and a: "unsubscribe 2 w1 = Inr (False, w1)"
    by blast
  have "w1 = \<lparr>bus = \<lparr>events = [], events_cap = eventsLimit, subscribers = [0]\<rparr>,
                   chans = [Open, Closed, Closed]\<rparr>"
    using u by (simp add: unsubscribe_def close_chan_def sample_world_def)
  with u a have "unsubscribe 2 sample_world =
       Inr (True, \<lparr>bus = \<lparr>events = [], events_cap = eventsLimit, subscribers = [0]\<rparr>,
                   chans = [Open, Closed, Closed]\<rparr>)"
     "unsubscribe 2 \<lparr>bus = \<lparr>events = [], events_cap = eventsLimit, subscribers = [0]\<rparr>,
                   chans = [Open, Closed, Closed]\<rparr> =
       Inr (False, \<lparr>bus = \<lparr>events = [], events_cap = eventsLimit, subscribers = [0]\<rparr>,
                   chans = [Open, Closed, Closed]\<rparr>)"
    by simp_all
  moreover have "unsubscribe 1 sample_world = Inr (False, sample_world)"
    using unsubscribe_once [of sample_world 1] no by blast
  ultimately show ?thesis using ok reg reachable_sample_world by blast
qed

subsection \<open>The fanout of a publish\<close>

lemma select_send_open:
  assumes "s < length cs" "cs ! s = Open"
  shows "\<exists>off t. select_send cs s r tie = Inr (off, t) \<and> t \<le> grace
     \<and> (off = Delivered \<longrightarrow> (\<exists>d. r = Some d \<and> d \<le> grace))
     \<and> (r = None \<or> (\<exists>d. r = Some d \<and> grace < d) \<longrightarrow> off = TimedOut)"
  using assms by (auto simp: select_send_def split: option.splits)

lemma fanout_open:
  assumes "list_all (\<lambda>s. s < length cs \<and> cs ! s = Open) ss"
  shows "\<exists>offs t. fanout cs en i ss = Inr (offs, t) \<and> map fst offs = ss
     \<and> t \<le> grace * length ss
     \<and> (\<forall>j<length ss.
           (snd (offs ! j) = Delivered \<longrightarrow> (\<exists>d. ready en (i + j) = Some d \<and> d \<le> grace))
         \<and> (ready en (i + j) = None \<or> (\<exists>d. ready en (i + j) = Some d \<and> grace < d)
              \<longrightarrow> snd (offs ! j) = TimedOut))"
  using assms
proof (induction ss arbitrary: i)
  case Nil
  show ?case by simp
next
  case (Cons s ss)
  from Cons.prems have s: "s < length cs" "cs ! s = Open" and rest: "list_all (\<lambda>s. s < length cs \<and> cs ! s = Open) ss"
    by simp_all
  from select_send_open [OF s, of "ready en i" "tie_send en i"] obtain off t where
    sel: "select_send cs s (ready en i) (tie_send en i) = Inr (off, t)" and t: "t \<le> grace"
    and d: "off = Delivered \<longrightarrow> (\<exists>d. ready en i = Some d \<and> d \<le> grace)"
    and o: "ready en i = None \<or> (\<exists>d. ready en i = Some d \<and> grace < d) \<longrightarrow> off = TimedOut"
    by blast
  from Cons.IH [OF rest, of "Suc i"] obtain offs t' where
    f: "fanout cs en (Suc i) ss = Inr (offs, t')" and m: "map fst offs = ss"
    and t': "t' \<le> grace * length ss"
    and each: "\<forall>j<length ss.
           (snd (offs ! j) = Delivered \<longrightarrow> (\<exists>d. ready en (Suc i + j) = Some d \<and> d \<le> grace))
         \<and> (ready en (Suc i + j) = None \<or> (\<exists>d. ready en (Suc i + j) = Some d \<and> grace < d)
              \<longrightarrow> snd (offs ! j) = TimedOut)"
    by blast
  have res: "fanout cs en i (s # ss) = Inr ((s, off) # offs, t + t')"
    using sel f by simp
  have time: "t + t' \<le> grace * length (s # ss)"
    using t t' by simp
  have all: "(snd (((s, off) # offs) ! j) = Delivered \<longrightarrow> (\<exists>d. ready en (i + j) = Some d \<and> d \<le> grace))
         \<and> (ready en (i + j) = None \<or> (\<exists>d. ready en (i + j) = Some d \<and> grace < d)
              \<longrightarrow> snd (((s, off) # offs) ! j) = TimedOut)" if "j < length (s # ss)" for j
  proof (cases j)
    case 0
    then show ?thesis using d o by simp
  next
    case (Suc j')
    with that have "j' < length ss" by simp
    with each Suc show ?thesis by simp
  qed
  show ?case
    using res m time all by (intro exI [of _ "(s, off) # offs"] exI [of _ "t + t'"]) simp
qed

lemma reachable_buffer:
  "reachable w \<Longrightarrow> events_cap (bus w) = eventsLimit \<and> length (events (bus w)) \<le> eventsLimit"
proof (induction rule: reachable.induct)
  case reach_New
  show ?case by (simp add: New_world_def New_def)
next
  case (reach_log w en now action ident "from" w' offs t)
  then show ?case
    by (auto simp: log_def store_event_def go_copy_def Let_def eventsLimit_def
        split: sum.splits prod.splits if_splits)
next
  case (reach_listen w l w')
  then show ?case by (auto simp: new_listener_def make_chan_def subscribe_def)
next
  case (reach_unsubscribe w l found w')
  then show ?case
    by (auto simp: unsubscribe_def split: option.splits sum.splits)
qed


lemma select_send_exact:
  assumes "s < length cs" "cs ! s = Open"
  shows "\<exists>off. select_send cs s r tie =
       Inr (off, case r of None \<Rightarrow> grace | Some d \<Rightarrow> min d grace)
     \<and> (\<forall>d. r = Some d \<and> d < grace \<longrightarrow> off = Delivered)"
  using assms by (auto simp: select_send_def split: option.splits)

lemma fanout_exact:
  assumes "list_all (\<lambda>s. s < length cs \<and> cs ! s = Open) ss"
  shows "\<exists>offs. fanout cs en i ss =
       Inr (offs, sum_list (map (\<lambda>j. case ready en j of None \<Rightarrow> grace | Some d \<Rightarrow> min d grace)
                              [i..<i + length ss]))
     \<and> length offs = length ss
     \<and> (\<forall>j<length ss. \<forall>d. ready en (i + j) = Some d \<and> d < grace \<longrightarrow> snd (offs ! j) = Delivered)"
  using assms
proof (induction ss arbitrary: i)
  case Nil
  show ?case by simp
next
  case (Cons s ss)
  let ?wait = "\<lambda>j. case ready en j of None \<Rightarrow> grace | Some d \<Rightarrow> min d grace"
  from Cons.prems have s: "s < length cs" "cs ! s = Open"
    and rest: "list_all (\<lambda>s. s < length cs \<and> cs ! s = Open) ss"
    by simp_all
  from select_send_exact [OF s, of "ready en i" "tie_send en i"] obtain off where
    sel: "select_send cs s (ready en i) (tie_send en i) = Inr (off, ?wait i)"
    and d: "\<forall>d. ready en i = Some d \<and> d < grace \<longrightarrow> off = Delivered"
    by blast
  from Cons.IH [OF rest, of "Suc i"] obtain offs where
    f: "fanout cs en (Suc i) ss = Inr (offs, sum_list (map ?wait [Suc i..<Suc i + length ss]))"
    and len: "length offs = length ss"
    and each: "\<forall>j<length ss. \<forall>d. ready en (Suc i + j) = Some d \<and> d < grace \<longrightarrow> snd (offs ! j) = Delivered"
    by blast
  have up: "[i..<i + length (s # ss)] = i # [Suc i..<Suc i + length ss]"
    using upt_conv_Cons [of i "i + length (s # ss)"] by simp
  have res: "fanout cs en i (s # ss) =
      Inr ((s, off) # offs, sum_list (map ?wait [i..<i + length (s # ss)]))"
    using sel f unfolding up by simp
  have all: "\<forall>d. ready en (i + j) = Some d \<and> d < grace \<longrightarrow> snd (((s, off) # offs) ! j) = Delivered"
    if "j < length (s # ss)" for j
  proof (cases j)
    case 0
    then show ?thesis using d by simp
  next
    case (Suc j')
    with that have "j' < length ss" by simp
    with each Suc show ?thesis by simp
  qed
  show ?case
    using res len all by (intro exI [of _ "(s, off) # offs"]) simp
qed


text \<open>
  C6, as the code has it. In every state the program reaches, and whatever the
  receivers do, a publish with \<open>k\<close> registered subscribers returns without panic.
  Once it holds the lock of the bus it offers the record to each subscriber once, in
  the order of the registry; each \<^verbatim>\<open>select\<close> ends when the receiver is ready or when
  the timer of 100 ms fires, so that the loop takes the sum of these waits, at most
  \<open>100 * k\<close> ms from the instant the lock was taken; a subscriber that is ready
  before the 100 ms are over gets the record, one that is not ready within them
  gets nothing, the offer is not repeated, and the subscriber stays registered. The
  publish returns at the instant the lock was taken plus that time: the time it has
  waited for the lock, behind the writers and readers before it, is not bounded by
  \<open>100 * k\<close>.
\<close>

theorem fanout_bounded_once_locked:
  "reachable w \<longrightarrow>
     (\<exists>w' offs t.
        log_locked en called now action ident origin (w, mu) =
          Inr ((w', mu\<lparr>w_unlocked := Lock called mu + t\<rparr>), offs, Lock called mu + t)
        \<and> log en now action ident origin w = Inr (w', offs, t)
        \<and> called \<le> Lock called mu \<and> w_unlocked mu \<le> Lock called mu
        \<and> r_unlocked mu \<le> Lock called mu
        \<and> map fst offs = subscribers (bus w)
        \<and> t = sum_list (map (\<lambda>j. case ready en j of None \<Rightarrow> grace | Some d \<Rightarrow> min d grace)
                           [0..<length (subscribers (bus w))])
        \<and> t \<le> grace * length (subscribers (bus w)) \<and> grace = 100
        \<and> (\<forall>j<length (subscribers (bus w)).
              (\<forall>d. ready en j = Some d \<and> d < grace \<longrightarrow> snd (offs ! j) = Delivered)
            \<and> (snd (offs ! j) = Delivered \<longrightarrow> (\<exists>d. ready en j = Some d \<and> d \<le> grace))
            \<and> (ready en j = None \<or> (\<exists>d. ready en j = Some d \<and> grace < d)
                 \<longrightarrow> snd (offs ! j) = TimedOut))
        \<and> subscribers (bus w') = subscribers (bus w) \<and> chans w' = chans w)"
proof
  assume r: "reachable w"
  let ?jm = "\<lparr>Status = action, ID = ident, From = origin, Time = now\<rparr>"
  let ?e' = "(bus w)\<lparr>events := drop (Suc (length (events (bus w))) - eventsLimit) (events (bus w) @ [?jm])\<rparr>"
  let ?k = "length (subscribers (bus w))"
  let ?wait = "\<lambda>j. case ready en j of None \<Rightarrow> grace | Some d \<Rightarrow> min d grace"
  from reachable_buffer [OF r] have st: "store_event ?jm (bus w) = Inr ?e'"
    by (intro store_event_events) (simp_all add: eventsLimit_def)
  from reachable_registry_ok [OF r]
  have op: "list_all (\<lambda>s. s < length (chans w) \<and> chans w ! s = Open) (subscribers ?e')"
    by (simp add: registry_ok_def)
  from fanout_open [OF op, of en 0] obtain offs t where
    f: "fanout (chans w) en 0 (subscribers ?e') = Inr (offs, t)"
    and m: "map fst offs = subscribers ?e'" and t: "t \<le> grace * length (subscribers ?e')"
    and each: "\<forall>j<length (subscribers ?e').
           (snd (offs ! j) = Delivered \<longrightarrow> (\<exists>d. ready en (0 + j) = Some d \<and> d \<le> grace))
         \<and> (ready en (0 + j) = None \<or> (\<exists>d. ready en (0 + j) = Some d \<and> grace < d)
              \<longrightarrow> snd (offs ! j) = TimedOut)"
    by blast
  from fanout_exact [OF op, of en 0] f
  have ex: "t = sum_list (map ?wait [0..<?k])"
    and del: "\<forall>j<?k. \<forall>d. ready en j = Some d \<and> d < grace \<longrightarrow> snd (offs ! j) = Delivered"
    by auto
  have l: "log en now action ident origin w = Inr (w\<lparr>bus := ?e'\<rparr>, offs, t)"
    using st f by (simp add: log_def)
  then have ll: "log_locked en called now action ident origin (w, mu) =
      Inr ((w\<lparr>bus := ?e'\<rparr>, mu\<lparr>w_unlocked := Lock called mu + t\<rparr>), offs, Lock called mu + t)"
    by (simp add: log_locked_def Let_def)
  have lk: "called \<le> Lock called mu" "w_unlocked mu \<le> Lock called mu" "r_unlocked mu \<le> Lock called mu"
    by (simp_all add: Lock_def)
  show "\<exists>w' offs t.
        log_locked en called now action ident origin (w, mu) =
          Inr ((w', mu\<lparr>w_unlocked := Lock called mu + t\<rparr>), offs, Lock called mu + t)
        \<and> log en now action ident origin w = Inr (w', offs, t)
        \<and> called \<le> Lock called mu \<and> w_unlocked mu \<le> Lock called mu
        \<and> r_unlocked mu \<le> Lock called mu
        \<and> map fst offs = subscribers (bus w)
        \<and> t = sum_list (map ?wait [0..<?k])
        \<and> t \<le> grace * ?k \<and> grace = 100
        \<and> (\<forall>j<?k.
              (\<forall>d. ready en j = Some d \<and> d < grace \<longrightarrow> snd (offs ! j) = Delivered)
            \<and> (snd (offs ! j) = Delivered \<longrightarrow> (\<exists>d. ready en j = Some d \<and> d \<le> grace))
            \<and> (ready en j = None \<or> (\<exists>d. ready en j = Some d \<and> grace < d)
                 \<longrightarrow> snd (offs ! j) = TimedOut))
        \<and> subscribers (bus w') = subscribers (bus w) \<and> chans w' = chans w"
    using l ll lk m t each ex del
    by (intro exI [of _ "w\<lparr>bus := ?e'\<rparr>"] exI [of _ offs] exI [of _ t]) (simp add: grace_def)
qed

text \<open>
  The claim as stated fails: a session replays two records to a client that takes
  3000 ms for each chunk, holding the read lock from the instant 0 to the instant
  6000; a publish called at the instant 1, with two subscribers that are ready at
  once, gets the lock and returns at the instant 6000, not within 200 ms.
\<close>

theorem publish_behind_replay_counterexample:
  "writeCurrent_locked lines_ext slow_client 0 15 0 [] Map.empty
       (bus replay_world, \<lparr>w_unlocked = 0, r_unlocked = 0\<rparr>)
     = ((bus replay_world, Map.empty, [''start c1 img:latest'', ''die c1 img:latest''], None),
        \<lparr>w_unlocked = 0, r_unlocked = 6000\<rparr>, 6000)
   \<and> log_locked eager 1 40 ''kill'' ''c1'' ''img:latest''
       (replay_world, \<lparr>w_unlocked = 0, r_unlocked = 6000\<rparr>)
     = Inr ((replay_world\<lparr>bus := (bus replay_world)\<lparr>events := events (bus replay_world)
                @ [\<lparr>Status = ''kill'', ID = ''c1'', From = ''img:latest'', Time = 40\<rparr>]\<rparr>\<rparr>,
             \<lparr>w_unlocked = 6000, r_unlocked = 6000\<rparr>),
            [(0, Delivered), (2, Delivered)], 6000)
   \<and> length (subscribers (bus replay_world)) = 2
   \<and> \<not> 6000 - 1 \<le> grace * length (subscribers (bus replay_world))"
  by (simp add: writeCurrent_locked_def RLock_def writeCurrent_def writeEvent_ms_def
      writeEvent_def in_window_def resolve_containers_def args_get_def isFiltered_def
      lines_ext_simps log_locked_def Lock_def log_def store_event_def select_send_def
      eager_def grace_def eventsLimit_def replay_world_def sample_world_def sample_bus_def
      sample_record_def slow_client_def)


theorem fanout_once_locked_witness:
  "reachable sample_world
   \<and> log_locked sample_env 300 5 ''die'' ''c1'' ''img:latest''
       (sample_world, \<lparr>w_unlocked = 250, r_unlocked = 400\<rparr>)
     = Inr ((sample_world\<lparr>bus := (bus sample_world)\<lparr>events :=
                [\<lparr>Status = ''die'', ID = ''c1'', From = ''img:latest'', Time = 5\<rparr>]\<rparr>\<rparr>,
             \<lparr>w_unlocked = 530, r_unlocked = 400\<rparr>),
            [(0, Delivered), (2, TimedOut)], 530)
   \<and> Lock 300 \<lparr>w_unlocked = 250, r_unlocked = 400\<rparr> = 400
   \<and> 530 - 400 \<le> grace * length (subscribers (bus sample_world))"
proof -
  let ?mu = "\<lparr>w_unlocked = 250, r_unlocked = 400\<rparr>"
  from fanout_bounded_once_locked [of sample_world sample_env 300 5 "''die''" "''c1''"
      "''img:latest''" ?mu] reachable_sample_world
  obtain w' offs t where
    l: "log_locked sample_env 300 5 ''die'' ''c1'' ''img:latest'' (sample_world, ?mu) =
          Inr ((w', ?mu\<lparr>w_unlocked := Lock 300 ?mu + t\<rparr>), offs, Lock 300 ?mu + t)"
    and t: "t \<le> grace * length (subscribers (bus sample_world))"
    by blast
  have lk: "Lock 300 ?mu = 400"
    by (simp add: Lock_def)
  have e: "log_locked sample_env 300 5 ''die'' ''c1'' ''img:latest'' (sample_world, ?mu)
     = Inr ((sample_world\<lparr>bus := (bus sample_world)\<lparr>events :=
                [\<lparr>Status = ''die'', ID = ''c1'', From = ''img:latest'', Time = 5\<rparr>]\<rparr>\<rparr>,
             \<lparr>w_unlocked = 530, r_unlocked = 400\<rparr>),
            [(0, Delivered), (2, TimedOut)], 530)"
    by (simp add: log_locked_def Lock_def log_def store_event_def select_send_def
        sample_world_def sample_env_def grace_def eventsLimit_def)
  with l lk have "t = 130" by simp
  with t e lk show ?thesis using reachable_sample_world by simp
qed

subsection \<open>The job \<^verbatim>\<open>Log\<close>\<close>

lemma log_reachable:
  assumes r: "reachable w"
  shows "\<exists>offs t. log en now action ident origin w =
      Inr (w\<lparr>bus := (bus w)\<lparr>events := drop (Suc (length (events (bus w))) - eventsLimit)
             (events (bus w) @ [\<lparr>Status = action, ID = ident, From = origin, Time = now\<rparr>])\<rparr>\<rparr>, offs, t)
      \<and> map fst offs = subscribers (bus w)"
proof -
  let ?jm = "\<lparr>Status = action, ID = ident, From = origin, Time = now\<rparr>"
  let ?e' = "(bus w)\<lparr>events := drop (Suc (length (events (bus w))) - eventsLimit) (events (bus w) @ [?jm])\<rparr>"
  from reachable_buffer [OF r] have st: "store_event ?jm (bus w) = Inr ?e'"
    by (intro store_event_events) (simp_all add: eventsLimit_def)
  from reachable_registry_ok [OF r]
  have op: "list_all (\<lambda>s. s < length (chans w) \<and> chans w ! s = Open) (subscribers ?e')"
    by (simp add: registry_ok_def)
  from fanout_open [OF op, of en 0] obtain offs t where
    "fanout (chans w) en 0 (subscribers ?e') = Inr (offs, t)" "map fst offs = subscribers ?e'"
    by blast
  then show ?thesis using st by (simp add: log_def)
qed

lemma Log_wrong_count:
  "length (Args job) \<noteq> 3 \<Longrightarrow>
     Log job w = (Some (Error (''usage: '' @ Name job @ '' ACTION ID FROM'')), None, w)"
  by (simp add: Log_def)

lemma Log_three:
  "Args job = [action, ident, origin] \<Longrightarrow> Log job w = (None, Some (action, ident, origin), w)"
  by (simp add: Log_def)

lemma run_spawned_stores:
  assumes "reachable w"
  shows "\<exists>w' offs t. run_spawned en now (action, ident, origin) w = Inr (w', offs, t)
     \<and> events (bus w') \<noteq> []
     \<and> last (events (bus w')) = \<lparr>Status = action, ID = ident, From = origin, Time = now\<rparr>
     \<and> map fst offs = subscribers (bus w)"
proof -
  from log_reachable [OF assms, of en now action ident origin] obtain offs t where
    l: "log en now action ident origin w =
      Inr (w\<lparr>bus := (bus w)\<lparr>events := drop (Suc (length (events (bus w))) - eventsLimit)
             (events (bus w) @ [\<lparr>Status = action, ID = ident, From = origin, Time = now\<rparr>])\<rparr>\<rparr>, offs, t)"
    and m: "map fst offs = subscribers (bus w)" by blast
  have k: "Suc (length (events (bus w))) - eventsLimit \<le> length (events (bus w))"
    by (simp add: eventsLimit_def)
  show ?thesis
    using l m k by (simp add: run_spawned_def)
qed

text \<open>
  C10. \<^verbatim>\<open>Log\<close> returns an error exactly when the number of its arguments is not 3;
  then the state is as it was and no call of \<^verbatim>\<open>log\<close> is started, so that no record is
  stored and nothing is offered to a subscriber. With 3 arguments it returns no
  error, with the state as it was and the call of \<^verbatim>\<open>log\<close> handed to a goroutine;
  when that call runs, in any state the program reaches, it stores the record and
  offers it to the subscribers.
\<close>

theorem Log_checks_argument_count:
  "(fst (Log job w) \<noteq> None \<longleftrightarrow> length (Args job) \<noteq> 3)
   \<and> (length (Args job) \<noteq> 3 \<longrightarrow>
        Log job w = (Some (Error (''usage: '' @ Name job @ '' ACTION ID FROM'')), None, w))
   \<and> (Args job = [action, ident, origin] \<longrightarrow> Log job w = (None, Some (action, ident, origin), w))
   \<and> (reachable w' \<longrightarrow>
        (\<exists>w'' offs t. run_spawned en now (action, ident, origin) w' = Inr (w'', offs, t)
           \<and> events (bus w'') \<noteq> []
           \<and> last (events (bus w'')) = \<lparr>Status = action, ID = ident, From = origin, Time = now\<rparr>
           \<and> map fst offs = subscribers (bus w')))"
proof -
  have "fst (Log job w) \<noteq> None \<longleftrightarrow> length (Args job) \<noteq> 3"
    by (simp add: Log_def)
  then show ?thesis
    using Log_wrong_count [of job w] Log_three [of job action ident origin w]
      run_spawned_stores [of w' en now action ident origin]
    by blast
qed

theorem Log_argument_count_witness:
  "Log (sample_job\<lparr>Name := ''log'', Args := [''start'', ''c1'']\<rparr>) sample_world
     = (Some (Error ''usage: log ACTION ID FROM''), None, sample_world)
   \<and> Log (sample_job\<lparr>Name := ''log'', Args := [''start'', ''c1'', ''img'', ''x'']\<rparr>) sample_world
     = (Some (Error ''usage: log ACTION ID FROM''), None, sample_world)
   \<and> Log (sample_job\<lparr>Name := ''log'', Args := [''start'', ''c1'', ''img'']\<rparr>) sample_world
     = (None, Some (''start'', ''c1'', ''img''), sample_world)
   \<and> (\<exists>w'' offs t. run_spawned sample_env 9 (''start'', ''c1'', ''img'') sample_world = Inr (w'', offs, t)
         \<and> last (events (bus w'')) = \<lparr>Status = ''start'', ID = ''c1'', From = ''img'', Time = 9\<rparr>)"
proof -
  let ?j = "\<lambda>args. sample_job\<lparr>Name := ''log'', Args := args\<rparr>"
  have "Log (?j [''start'', ''c1'']) sample_world
     = (Some (Error ''usage: log ACTION ID FROM''), None, sample_world)"
    using Log_checks_argument_count [where job = "?j [''start'', ''c1'']" and w = sample_world]
    by (simp add: sample_job_def)
  moreover have "Log (?j [''start'', ''c1'', ''img'', ''x'']) sample_world
     = (Some (Error ''usage: log ACTION ID FROM''), None, sample_world)"
    using Log_checks_argument_count [where job = "?j [''start'', ''c1'', ''img'', ''x'']" and w = sample_world]
    by (simp add: sample_job_def)
  moreover have "Log (?j [''start'', ''c1'', ''img'']) sample_world
     = (None, Some (''start'', ''c1'', ''img''), sample_world)"
    using Log_checks_argument_count [where job = "?j [''start'', ''c1'', ''img'']" and w = sample_world
        and action = "''start''" and ident = "''c1''" and origin = "''img''"]
    by (simp add: sample_job_def)
  moreover have "\<exists>w'' offs t. run_spawned sample_env 9 (''start'', ''c1'', ''img'') sample_world = Inr (w'', offs, t)
         \<and> last (events (bus w'')) = \<lparr>Status = ''start'', ID = ''c1'', From = ''img'', Time = 9\<rparr>"
    using Log_checks_argument_count [where w' = sample_world and en = sample_env and now = 9
        and action = "''start''" and ident = "''c1''" and origin = "''img''"] reachable_sample_world
    by blast
  ultimately show ?thesis by blast
qed

subsection \<open>The query session\<close>

lemma writeEvent_marshal_fails:
  "Marshal x event = Inl err \<Longrightarrow> writeEvent x out event fs = (resolve_containers x fs, out, None)"
  by (simp add: writeEvent_def Let_def)

lemma writeEvent_write:
  assumes "\<not> isFiltered (Status event) (args_get (resolve_containers x fs) ''event'')"
    "\<not> isFiltered (From event) (args_get (resolve_containers x fs) ''image'')"
    "\<not> isFiltered (ID event) (args_get (resolve_containers x fs) ''container'')"
    "Marshal x event = Inr b" "Write x out b = (out', r)"
  shows "writeEvent x out event fs = (resolve_containers x fs, out', r)"
  using assms by (simp add: writeEvent_def Let_def)

lemma writeEvents_append:
  "writeEvents x out fs (evs @ more_evs) =
     (case writeEvents x out fs evs of
        (fs', out', Some err) \<Rightarrow> (fs', out', Some err)
      | (fs', out', None) \<Rightarrow> writeEvents x out' fs' more_evs)"
  by (induction evs arbitrary: out fs) (auto split: prod.splits option.splits)

lemma writeEvents_first_error:
  assumes "writeEvents x out fs good = (fs1, out1, None)"
    "writeEvent x out1 event fs1 = (fs2, out2, Some err)"
  shows "writeEvents x out fs (good @ event # after) = (fs2, out2, Some err)"
  using assms by (simp add: writeEvents_append)

lemma writeEvents_all_dropped:
  assumes "\<forall>ev\<in>set evs. \<exists>e. Marshal x ev = Inl e"
  shows "\<exists>fs'. writeEvents x out fs evs = (fs', out, None)"
  using assms
proof (induction evs arbitrary: fs)
  case Nil
  show ?case by simp
next
  case (Cons ev evs)
  then obtain e where "Marshal x ev = Inl e" by auto
  then have "writeEvent x out ev fs = (resolve_containers x fs, out, None)"
    by (rule writeEvent_marshal_fails)
  moreover from Cons obtain fs' where
    "writeEvents x out (resolve_containers x fs) evs = (fs', out, None)" by fastforce
  ultimately show ?case by simp
qed

lemma Get_loop_Recvs:
  "Get_loop x out fs (map Recv recs @ rest) =
     (case writeEvents x out fs recs of
        (fs', out', Some err) \<Rightarrow> (Returned (Some err), out')
      | (fs', out', None) \<Rightarrow> Get_loop x out' fs' rest)"
  by (induction recs arbitrary: out fs) (auto split: prod.splits option.splits)

lemma replayed_in_window:
  "replayed job e =
     (if env_since job \<noteq> 0 then filter (in_window (env_since job) (env_until job)) (events e) else [])"
proof -
  have "in_window s u = (\<lambda>event. sint s \<le> sint (Time event) \<and> (sint (Time event) \<le> sint u \<or> u = 0))"
    for s u by (rule ext) (simp add: in_window_def)
  then show ?thesis by (simp add: replayed_def)
qed

lemma Get_session_eq:
  "Get_session x (map Recv recs @ rest) job fs w1 =
     (case writeEvents x (fst (Write x (Stdout job) [])) fs (replayed job (bus w1) @ recs) of
        (fs', out', Some err) \<Rightarrow> (Returned (Some err), out', w1)
      | (fs', out', None) \<Rightarrow>
          (case Get_loop x out' fs' rest of (res, out'') \<Rightarrow> (res, out'', w1)))"
  by (auto simp: Get_session_def writeCurrent_def writeCurrent_loop_filter replayed_in_window
      writeEvents_append Get_loop_Recvs Let_def split: prod.splits option.splits)

lemma new_listener_events: "events (bus (snd (new_listener w))) = events (bus w)"
  by (simp add: new_listener_def make_chan_def subscribe_def)

lemma Get_registered:
  assumes ok: "registry_ok w" and p: "FromParam x (env_filters job) = Inr fs"
  shows "Get x trace job w =
     (case Get_session x trace job fs (snd (new_listener w)) of
        (Blocked, out, w2) \<Rightarrow>
          Inr (Blocked, out, snd (new_listener w),
               if env_until job = 0 then Stopped else Running (env_until job))
      | (Returned r, out, w2) \<Rightarrow>
          Inr (Returned r, out, w\<lparr>chans := chans w @ [Closed]\<rparr>,
               if env_until job = 0 then Stopped else Running (env_until job)))"
proof -
  obtain l w1 where n: "new_listener w = (l, w1)" by (cases "new_listener w")
  note f = registry_ok_new_listener [OF ok n]
  have same: "w2 = w1" if "Get_session x trace job fs w1 = (res, out, w2)" for res out w2
    using that
    by (auto simp: Get_session_def writeCurrent_def Let_def split: if_splits prod.splits option.splits)
  have reg: "l \<in> set (subscribers (bus w1))" "l < length (chans w1)" "chans w1 ! l = Open"
    using f(3,4) by (simp_all add: nth_append)
  have "remove1 l (subscribers (bus w) @ [l]) = subscribers (bus w)"
    using f(2) by (simp add: remove1_append)
  then have u: "unsubscribe l w1 = Inr (True, w\<lparr>chans := chans w @ [Closed]\<rparr>)"
    using unsubscribe_present [OF reg] f(3,4) by simp
  obtain res out w2 where s: "Get_session x trace job fs w1 = (res, out, w2)"
    by (cases "Get_session x trace job fs w1")
  with same have w2: "w2 = w1" by simp
  show ?thesis
    using p n s w2 u by (cases res) (simp_all add: Get_def Let_def)
qed


text \<open>
  C7. When \<^verbatim>\<open>json.Marshal\<close> fails on a record, \<^verbatim>\<open>writeEvent\<close> returns no error and
  leaves the sink as it was, and the loop goes on with the next record; a session
  all of whose records fail to encode, replayed and received, writes nothing after
  its first empty write, returns no error and stays in its loop. When the write of
  an encoded record fails, in the replay or in the loop, all records before it
  having gone without error, \<^verbatim>\<open>Get\<close> returns that error to its caller, whatever
  follows in the buffer or on the listener: the sink is as the one failed call of
  \<^verbatim>\<open>Write\<close> left it, and the deferred \<^verbatim>\<open>unsubscribe\<close> has closed the listener and taken
  it out of the registry, which is as it was before the session.
\<close>

theorem emission_failures:
  "(Marshal x event = Inl merr \<longrightarrow>
      writeEvent x out event fs = (resolve_containers x fs, out, None)
      \<and> Get_loop x out fs (Recv event # rest) = Get_loop x out (resolve_containers x fs) rest)
   \<and> (registry_ok w \<and> FromParam x (env_filters job) = Inr fs
      \<and> (\<forall>ev\<in>set (replayed job (bus w) @ recs). \<exists>e. Marshal x ev = Inl e) \<longrightarrow>
        Get x (map Recv recs) job w =
          Inr (Blocked, fst (Write x (Stdout job) []), snd (new_listener w),
               if env_until job = 0 then Stopped else Running (env_until job)))
   \<and> (registry_ok w \<and> FromParam x (env_filters job) = Inr fs
      \<and> replayed job (bus w) @ recs = good @ event # after
      \<and> writeEvents x (fst (Write x (Stdout job) [])) fs good = (fs1, out1, None)
      \<and> \<not> isFiltered (Status event) (args_get (resolve_containers x fs1) ''event'')
      \<and> \<not> isFiltered (From event) (args_get (resolve_containers x fs1) ''image'')
      \<and> \<not> isFiltered (ID event) (args_get (resolve_containers x fs1) ''container'')
      \<and> Marshal x event = Inr b \<and> Write x out1 b = (out2, Some err) \<longrightarrow>
        Get x (map Recv recs @ rest) job w =
          Inr (Returned (Some err), out2, w\<lparr>chans := chans w @ [Closed]\<rparr>,
               if env_until job = 0 then Stopped else Running (env_until job)))"
proof -
  let ?out0 = "fst (Write x (Stdout job) [])"
  let ?w1 = "snd (new_listener w)"
  let ?tm = "if env_until job = 0 then Stopped else Running (env_until job)"
  have r: "replayed job (bus ?w1) = replayed job (bus w)"
    by (simp add: replayed_def new_listener_events)
  have a: "writeEvent x out event fs = (resolve_containers x fs, out, None)
      \<and> Get_loop x out fs (Recv event # rest) = Get_loop x out (resolve_containers x fs) rest"
    if "Marshal x event = Inl merr"
    using writeEvent_marshal_fails [OF that] by simp
  have b: "Get x (map Recv recs) job w = Inr (Blocked, ?out0, ?w1, ?tm)"
    if ok: "registry_ok w" and p: "FromParam x (env_filters job) = Inr fs"
      and m: "\<forall>ev\<in>set (replayed job (bus w) @ recs). \<exists>e. Marshal x ev = Inl e"
  proof -
    from writeEvents_all_dropped [OF m] obtain fs' where
      "writeEvents x ?out0 fs (replayed job (bus w) @ recs) = (fs', ?out0, None)" by blast
    then have "Get_session x (map Recv recs) job fs ?w1 = (Blocked, ?out0, ?w1)"
      using Get_session_eq [of x recs "[]" job fs ?w1] by (simp add: r)
    then show ?thesis using Get_registered [OF ok p, of "map Recv recs"] by simp
  qed
  have c: "Get x (map Recv recs @ rest) job w =
      Inr (Returned (Some err), out2, w\<lparr>chans := chans w @ [Closed]\<rparr>, ?tm)"
    if ok: "registry_ok w" and p: "FromParam x (env_filters job) = Inr fs"
      and sp: "replayed job (bus w) @ recs = good @ event # after"
      and g: "writeEvents x ?out0 fs good = (fs1, out1, None)"
      and pass: "\<not> isFiltered (Status event) (args_get (resolve_containers x fs1) ''event'')"
        "\<not> isFiltered (From event) (args_get (resolve_containers x fs1) ''image'')"
        "\<not> isFiltered (ID event) (args_get (resolve_containers x fs1) ''container'')"
      and m: "Marshal x event = Inr b" and wr: "Write x out1 b = (out2, Some err)"
  proof -
    have "writeEvent x out1 event fs1 = (resolve_containers x fs1, out2, Some err)"
      by (rule writeEvent_write [OF pass m wr])
    from writeEvents_first_error [OF g this, of after]
    have "writeEvents x ?out0 fs (replayed job (bus w) @ recs) = (resolve_containers x fs1, out2, Some err)"
      by (simp add: sp)
    then have "Get_session x (map Recv recs @ rest) job fs ?w1 = (Returned (Some err), out2, ?w1)"
      using Get_session_eq [of x recs rest job fs ?w1] by (simp add: r)
    then show ?thesis using Get_registered [OF ok p, of "map Recv recs @ rest"] by simp
  qed
  show ?thesis using a b c by blast
qed


lemma broken_ext_simps:
  "Write broken_ext sink b = (if b = [] then (sink, None) else (sink, Some (Error ''broken pipe'')))"
  "Marshal broken_ext event = Inr (Status event @ '' '' @ ID event @ '' '' @ From event)"
  "FromParam broken_ext s = (if s = [] then Inr Map.empty else Inl (Error ''bad filter''))"
  by (simp_all add: broken_ext_def lines_ext_def)

lemma picky_ext_simps:
  "Write picky_ext sink b = (sink @ [b], None)"
  "Marshal picky_ext event =
     (if Status event = ''odd'' then Inl (Error ''unsupported value'')
      else Inr (Status event @ '' '' @ ID event @ '' '' @ From event))"
  "FromParam picky_ext s = (if s = [] then Inr Map.empty else Inl (Error ''bad filter''))"
  by (simp_all add: picky_ext_def lines_ext_def)

lemma full_ext_simps:
  "Write full_ext sink b =
     (if length sink < 2 then (sink @ [b], None) else (sink, Some (Error ''no space left'')))"
  "Marshal full_ext event = Inr (Status event @ '' '' @ ID event @ '' '' @ From event)"
  "FromParam full_ext s = (if s = [] then Inr Map.empty else Inl (Error ''bad filter''))"
  by (simp_all add: full_ext_def lines_ext_def)

lemma resolve_containers_empty: "resolve_containers x Map.empty = Map.empty"
  by (simp add: resolve_containers_def)

lemma isFiltered_no_filters: "\<not> isFiltered field (args_get Map.empty k)"
  by (simp add: args_get_def isFiltered_def)

lemma registry_ok_replay_world: "registry_ok replay_world"
  by (simp add: registry_ok_def replay_world_def sample_world_def)

theorem emission_failures_witness:
  "writeEvent picky_ext [] (sample_record ''odd'' 5) Map.empty = (Map.empty, [], None)
   \<and> Get picky_ext [Recv (sample_record ''odd'' 5), Recv (sample_record ''odd'' 6)] sample_job
         sample_world
       = Inr (Blocked, [[]], snd (new_listener sample_world), Stopped)
   \<and> Get broken_ext [Recv (sample_record ''start'' 5), Recv (sample_record ''die'' 6), TimerFired]
         sample_job sample_world
       = Inr (Returned (Some (Error ''broken pipe'')), [],
              sample_world\<lparr>chans := [Open, Closed, Open, Closed]\<rparr>, Stopped)
   \<and> Get broken_ext [Recv (sample_record ''kill'' 50)]
         (sample_job\<lparr>env_since := 15, env_until := 40\<rparr>) replay_world
       = Inr (Returned (Some (Error ''broken pipe'')), [],
              replay_world\<lparr>chans := [Open, Closed, Open, Closed]\<rparr>, Running 40)
   \<and> Get full_ext [Recv (sample_record ''kill'' 50), Recv (sample_record ''stop'' 51)]
         (sample_job\<lparr>env_since := 25\<rparr>) replay_world
       = Inr (Returned (Some (Error ''no space left'')), [[], ''die c1 img:latest''],
              replay_world\<lparr>chans := [Open, Closed, Open, Closed]\<rparr>, Stopped)"
proof -
  let ?odd = "sample_record ''odd'' 5" and ?odd' = "sample_record ''odd'' 6"
  let ?start = "sample_record ''start'' 5" and ?die = "sample_record ''die'' 6"
  let ?kill = "sample_record ''kill'' 50" and ?stop = "sample_record ''stop'' 51"
  have ok: "registry_ok sample_world"
    by (simp add: registry_ok_def sample_world_def)
  have a1: "writeEvent picky_ext [] ?odd Map.empty = (Map.empty, [], None)"
    using emission_failures [where x = picky_ext and event = ?odd
        and merr = "Error ''unsupported value''" and out = "[]" and fs = Map.empty, THEN conjunct1]
    by (simp add: picky_ext_simps sample_record_def resolve_containers_empty)
  have a2: "Get picky_ext [Recv ?odd, Recv ?odd'] sample_job sample_world
       = Inr (Blocked, [[]], snd (new_listener sample_world), Stopped)"
    using emission_failures [where x = picky_ext and w = sample_world and job = sample_job
        and fs = Map.empty and recs = "[?odd, ?odd']", THEN conjunct2, THEN conjunct1] ok
    by (simp add: picky_ext_simps sample_record_def sample_job_def replayed_def)
  have a3: "Get broken_ext [Recv ?start, Recv ?die, TimerFired] sample_job sample_world
       = Inr (Returned (Some (Error ''broken pipe'')), [],
              sample_world\<lparr>chans := [Open, Closed, Open, Closed]\<rparr>, Stopped)"
    using emission_failures [where x = broken_ext and w = sample_world and job = sample_job
        and fs = Map.empty and recs = "[?start, ?die]" and rest = "[TimerFired]"
        and good = "[]" and event = ?start and after = "[?die]" and ?fs1.0 = Map.empty
        and ?out1.0 = "[]" and b = "''start c1 img:latest''" and ?out2.0 = "[]"
        and err = "Error ''broken pipe''", THEN conjunct2, THEN conjunct2] ok
    by (simp add: broken_ext_simps sample_record_def sample_job_def replayed_def
        resolve_containers_empty isFiltered_no_filters sample_world_def)
  have a4: "Get broken_ext [Recv ?kill] (sample_job\<lparr>env_since := 15, env_until := 40\<rparr>) replay_world
       = Inr (Returned (Some (Error ''broken pipe'')), [],
              replay_world\<lparr>chans := [Open, Closed, Open, Closed]\<rparr>, Running 40)"
    using emission_failures [where x = broken_ext and w = replay_world
        and job = "sample_job\<lparr>env_since := 15, env_until := 40\<rparr>"
        and fs = Map.empty and recs = "[?kill]" and rest = "[]"
        and good = "[]" and event = "sample_record ''start'' 20"
        and after = "[sample_record ''die'' 30, ?kill]" and ?fs1.0 = Map.empty
        and ?out1.0 = "[]" and b = "''start c1 img:latest''" and ?out2.0 = "[]"
        and err = "Error ''broken pipe''", THEN conjunct2, THEN conjunct2]
      registry_ok_replay_world
    by (simp add: broken_ext_simps sample_record_def sample_job_def replayed_def
        resolve_containers_empty isFiltered_no_filters replay_world_def sample_world_def
        sample_bus_def)
  have g: "writeEvents full_ext [[]] Map.empty [sample_record ''die'' 30]
      = (Map.empty, [[], ''die c1 img:latest''], None)"
    by (simp add: writeEvent_def full_ext_simps sample_record_def resolve_containers_empty
        isFiltered_no_filters)
  have a5: "Get full_ext [Recv ?kill, Recv ?stop] (sample_job\<lparr>env_since := 25\<rparr>) replay_world
       = Inr (Returned (Some (Error ''no space left'')), [[], ''die c1 img:latest''],
              replay_world\<lparr>chans := [Open, Closed, Open, Closed]\<rparr>, Stopped)"
    using emission_failures [where x = full_ext and w = replay_world
        and job = "sample_job\<lparr>env_since := 25\<rparr>"
        and fs = Map.empty and recs = "[?kill, ?stop]" and rest = "[]"
        and good = "[sample_record ''die'' 30]" and event = ?kill
        and after = "[?stop]" and ?fs1.0 = Map.empty
        and ?out1.0 = "[[], ''die c1 img:latest'']" and b = "''kill c1 img:latest''"
        and ?out2.0 = "[[], ''die c1 img:latest'']"
        and err = "Error ''no space left''", THEN conjunct2, THEN conjunct2]
      registry_ok_replay_world g
    by (simp add: full_ext_simps sample_record_def sample_job_def replayed_def
        resolve_containers_empty isFiltered_no_filters replay_world_def sample_world_def
        sample_bus_def)
  show ?thesis using a1 a2 a3 a4 a5 by blast
qed







end
